theory Spec2Isabelle
  imports Main "HOL-Library.Word" "HOL-Library.Signed_Division" "HOL-Library.Char_ord"
    "HOL-Library.List_Lexorder" "HOL-Library.Multiset"
begin

unbundle bit_operations_syntax

section \<open>BamReaderPrivate: reference lookup\<close>

text \<open>
  \<^verbatim>\<open>RefData\<close> is declared in a header that is not part of the sources at hand; the reader
  uses its two fields \<^verbatim>\<open>RefName\<close> and \<^verbatim>\<open>RefLength\<close> (a 32-bit integer, read with sint).
\<close>

record RefData =
  RefName :: string
  RefLength :: "32 word"

text \<open>
  \<^verbatim>\<open>distance(v.begin(), find(v.begin(), v.end(), x))\<close>: the number of elements in front of
  the first one equal to \<open>x\<close>, the size of the vector when there is none.
\<close>

fun find_distance :: "'a list \<Rightarrow> 'a \<Rightarrow> nat" where
  "find_distance [] x = 0"
| "find_distance (y # ys) x = (if y = x then 0 else Suc (find_distance ys x))"

text \<open>The conversion of a size or an iterator distance to a 32-bit \<^verbatim>\<open>int\<close>.\<close>

definition to_int32 :: "nat \<Rightarrow> int" where
  "to_int32 n = sint (word_of_nat n :: 32 word)"

definition GetReferenceID :: "RefData list \<Rightarrow> string \<Rightarrow> int" where
  "GetReferenceID m_references refName =
     (let refNames = map RefName m_references;
          index = to_int32 (find_distance refNames refName)
      in if index = to_int32 (length m_references) then - 1 else index)"

section \<open>BamAlignment and the block stream\<close>

text \<open>
  The class \<^verbatim>\<open>BamAlignment\<close> and its support data are declared in headers outside the
  sources at hand. The record lists the attributes that the reader, the sorter and the FASTQ
  writer touch, with the widths the record layout gives them: reference ids, positions and
  the insert size are 32-bit signed (read with \<open>sint\<close>), the bin and the flags are 16
  bits wide and the mapping quality 8. The values stored by the decoder fit these widths.
\<close>

type_synonym byte = "8 word"

record CigarOp =
  Type :: char
  Length :: "32 word"

record BamAlignmentSupportData =
  AllCharData :: "byte list"
  BlockLength :: "32 word"
  NumCigarOperations :: "32 word"
  QueryNameLength :: "32 word"
  QuerySequenceLength :: "32 word"
  HasCoreOnly :: bool

record BamAlignment =
  Name :: string
  QueryBases :: string
  Qualities :: string
  RefID :: "32 word"
  Position :: "32 word"
  Bin :: "16 word"
  MapQuality :: "8 word"
  AlignmentFlag :: "16 word"
  CigarData :: "CigarOp list"
  MateRefID :: "32 word"
  MatePosition :: "32 word"
  InsertSize :: "32 word"
  SupportData :: BamAlignmentSupportData

text \<open>The freshly constructed alignment (\<^verbatim>\<open>new BamAlignment()\<close>): unmapped, empty.\<close>

definition BamAlignmentSupportData_new :: BamAlignmentSupportData where
  "BamAlignmentSupportData_new =
     \<lparr>AllCharData = [], BlockLength = 0, NumCigarOperations = 0, QueryNameLength = 0,
      QuerySequenceLength = 0, HasCoreOnly = False\<rparr>"

definition BamAlignment_new :: BamAlignment where
  "BamAlignment_new =
     \<lparr>Name = [], QueryBases = [], Qualities = [], RefID = - 1, Position = - 1, Bin = 0,
      MapQuality = 0, AlignmentFlag = 0, CigarData = [], MateRefID = - 1, MatePosition = - 1,
      InsertSize = 0, SupportData = BamAlignmentSupportData_new\<rparr>"

text \<open>
  Modelled from the spec: the block-compression codec (\<^verbatim>\<open>BgzfStream\<close>) is not among the
  sources; the spec treats it as an opaque byte-stream device with \<^verbatim>\<open>read(n)\<close>,
  \<^verbatim>\<open>seek(offset)\<close> and \<^verbatim>\<open>tell()\<close>. Here it is the decompressed byte sequence with a
  cursor. \<^verbatim>\<open>Read\<close> hands out the next \<open>n\<close> bytes, fewer at the end of the data, and
  returns them with the advanced stream; \<^verbatim>\<open>Seek\<close> fails (the source throws a
  \<^verbatim>\<open>BamException\<close>) for an offset outside the data. This device never fails in
  \<^verbatim>\<open>Read\<close>.
\<close>

record BgzfStream =
  stream_bytes :: "byte list"
  stream_offset :: nat
  stream_open :: bool

definition stream_Read :: "BgzfStream \<Rightarrow> nat \<Rightarrow> byte list \<times> BgzfStream" where
  "stream_Read st n =
     (let got = take n (drop (stream_offset st) (stream_bytes st))
      in (got, st\<lparr>stream_offset := stream_offset st + length got\<rparr>))"

definition stream_Tell :: "BgzfStream \<Rightarrow> int" where
  "stream_Tell st = int (stream_offset st)"

definition stream_Seek :: "BgzfStream \<Rightarrow> int \<Rightarrow> string + BgzfStream" where
  "stream_Seek st position =
     (if 0 \<le> position \<and> position \<le> int (length (stream_bytes st))
      then Inr (st\<lparr>stream_offset := nat position\<rparr>)
      else Inl ''BgzfStream::Seek: unable to seek in BGZF file'')"

definition stream_Close :: "BgzfStream \<Rightarrow> BgzfStream" where
  "stream_Close st = st\<lparr>stream_open := False\<rparr>"

text \<open>
  The region controller (\<^verbatim>\<open>BamRandomAccessController\<close>) is outside the sources as well.
  The reader consults three things: whether a region is set, whether the index found
  alignments in it, and the classification of an alignment against the region, which is
  kept here as a function of the alignment.
\<close>

datatype RegionState = BeforeRegion | OverlapsRegion | AfterRegion

record BamRandomAccessController =
  HasRegion :: bool
  RegionHasAlignments :: bool
  AlignmentState :: "BamAlignment \<Rightarrow> RegionState"

definition ClearRegion :: "BamRandomAccessController \<Rightarrow> BamRandomAccessController" where
  "ClearRegion c = c\<lparr>HasRegion := False\<rparr>"

text \<open>
  The handle of the prefetch thread: not created, created and not yet joined, joined.
  \<^verbatim>\<open>pthread_join\<close> waits for the thread to end and returns 0, or an error number
  when there is no joinable thread.
\<close>

datatype pthread = NotCreated | Joinable | Joined

record BamReaderPrivate =
  m_stream :: BgzfStream
  m_isBigEndian :: bool
  m_references :: "RefData list"
  m_header :: string
  m_filename :: string
  m_alignmentsBeginOffset :: int
  m_errorString :: string
  m_randomAccessController :: BamRandomAccessController
  do_prefetch :: bool
  prefetch_thread :: pthread
  prefetch_alignments :: "BamAlignment option list"
  prefetch_tell_fail :: "int list"
  stack_buffer :: "byte list"
  cerr :: "string list"

text \<open>
  \<^verbatim>\<open>stack_buffer\<close> is the content of the four uninitialised bytes of
  \<^verbatim>\<open>char buffer[sizeof(uint32_t)]\<close> before the block length is read into them: any four
  bytes. \<^verbatim>\<open>cerr\<close> collects the lines printed to the error stream.
\<close>

definition SetErrorString :: "string \<Rightarrow> string \<Rightarrow> BamReaderPrivate \<Rightarrow> BamReaderPrivate" where
  "SetErrorString wher what r = r\<lparr>m_errorString := wher @ '': '' @ what\<rparr>"

definition pthread_join :: "BamReaderPrivate \<Rightarrow> int \<times> BamReaderPrivate" where
  "pthread_join r =
     (if prefetch_thread r = Joinable then (0, r\<lparr>prefetch_thread := Joined\<rparr>) else (3, r))"

definition perror :: "string \<Rightarrow> BamReaderPrivate \<Rightarrow> BamReaderPrivate" where
  "perror msg r = r\<lparr>cerr := cerr r @ [msg]\<rparr>"

text \<open>
  \<^verbatim>\<open>StopPrefetch\<close>: the flag is cleared first, and the join is guarded by the flag, read
  again after it was cleared; \<^verbatim>\<open>&&\<close> evaluates its right operand only when the left
  one holds.
\<close>

definition StopPrefetch :: "BamReaderPrivate \<Rightarrow> BamReaderPrivate" where
  "StopPrefetch r =
     (if \<not> do_prefetch r then r
      else
        let r1 = r\<lparr>do_prefetch := False\<rparr>
        in if do_prefetch r1
           then (case pthread_join r1 of
                   (rc, r2) \<Rightarrow> if 0 \<noteq> rc then perror ''Error joining prefetch thread'' r2 else r2)
           else r1)"

definition IsOpen :: "BamReaderPrivate \<Rightarrow> bool" where
  "IsOpen r = stream_open (m_stream r)"

definition Seek :: "BamReaderPrivate \<Rightarrow> int \<Rightarrow> bool \<times> BamReaderPrivate" where
  "Seek r position =
     (if \<not> IsOpen r
      then (False, SetErrorString ''BamReader::Seek'' ''cannot seek on unopened BAM file'' r)
      else
        let r1 = StopPrefetch r
        in case stream_Seek (m_stream r1) position of
             Inr st \<Rightarrow> (True, r1\<lparr>m_stream := st\<rparr>)
           | Inl streamError \<Rightarrow>
               (False, SetErrorString ''BamReader::Seek''
                         (''could not seek in BAM file: \<newline>'' @ [CHR 0x09] @ streamError) r1))"

definition Rewind :: "BamReaderPrivate \<Rightarrow> bool \<times> BamReaderPrivate" where
  "Rewind r =
     (let r1 = StopPrefetch r;
          r2 = r1\<lparr>m_randomAccessController := ClearRegion (m_randomAccessController r1)\<rparr>
      in case Seek r2 (m_alignmentsBeginOffset r2) of
           (True, r3) \<Rightarrow> (True, r3)
         | (False, r3) \<Rightarrow>
             (False, SetErrorString ''BamReader::Rewind''
                       (''could not rewind: \<newline>'' @ [CHR 0x09] @ m_errorString r3) r3))"

definition Close :: "BamReaderPrivate \<Rightarrow> bool \<times> BamReaderPrivate" where
  "Close r =
     (let r1 = StopPrefetch r;
          r2 = r1\<lparr>m_references := [], m_header := [], m_filename := [],
                  m_randomAccessController := ClearRegion (m_randomAccessController r1)\<rparr>
      in if IsOpen r2 then (True, r2\<lparr>m_stream := stream_Close (m_stream r2)\<rparr>)
         else (True, r2))"

section \<open>BamReaderPrivate: decoding one alignment\<close>

text \<open>
  Modelled from the spec: the constants of \<^verbatim>\<open>BamConstants.h\<close> and the byte helpers of
  \<^verbatim>\<open>BamAux.h\<close> are outside the sources. The core of a record is 32 bytes, a CIGAR word
  holds the length above a 4-bit operation code, and the nine codes are M, I, D, N, S, H, P,
  = and X. \<^verbatim>\<open>UnpackUnsignedInt\<close> reads four bytes as an integer in the byte order of the
  host and \<^verbatim>\<open>SwapEndian_32\<close> reverses the four bytes of an integer.
\<close>

definition BAM_CORE_SIZE :: nat where
  "BAM_CORE_SIZE = 32"

definition BAM_CIGAR_SHIFT :: nat where
  "BAM_CIGAR_SHIFT = 4"

definition BAM_CIGAR_MASK :: "32 word" where
  "BAM_CIGAR_MASK = 0xF"

definition BAM_CIGAR_LOOKUP :: "nat \<Rightarrow> char" where
  \<comment> \<open>the array is the string with its terminating NUL; an index past it is outside the
      array in the source and gives NUL here\<close>
  "BAM_CIGAR_LOOKUP i = (if i < 9 then ''MIDNSHP=X'' ! i else CHR 0x00)"

definition byte_at :: "byte list \<Rightarrow> nat \<Rightarrow> byte" where
  \<comment> \<open>a byte of a buffer; the source does not check the index, a read past the end gives 0 here\<close>
  "byte_at bs i = (if i < length bs then bs ! i else 0)"

definition UnpackUnsignedInt :: "bool \<Rightarrow> byte list \<Rightarrow> nat \<Rightarrow> 32 word" where
  "UnpackUnsignedInt bigEndian bs i =
     (let b0 = ucast (byte_at bs i) :: 32 word; b1 = ucast (byte_at bs (i + 1));
          b2 = ucast (byte_at bs (i + 2)); b3 = ucast (byte_at bs (i + 3))
      in if bigEndian
         then push_bit 24 b0 OR push_bit 16 b1 OR push_bit 8 b2 OR b3
         else b0 OR push_bit 8 b1 OR push_bit 16 b2 OR push_bit 24 b3)"

definition UnpackSignedInt :: "bool \<Rightarrow> byte list \<Rightarrow> nat \<Rightarrow> 32 word" where
  "UnpackSignedInt bigEndian bs i = UnpackUnsignedInt bigEndian bs i"

definition SwapEndian_32 :: "32 word \<Rightarrow> 32 word" where
  "SwapEndian_32 x =
     (drop_bit 24 x OR (push_bit 8 x AND 0x00FF0000) OR (drop_bit 8 x AND 0x0000FF00)
      OR push_bit 24 x)"

fun SwapEndian_32p :: "byte list \<Rightarrow> byte list" where
  \<comment> \<open>the loop over the core that reverses every group of four bytes in place\<close>
  "SwapEndian_32p (a # b # c # d # rest) = d # c # b # a # SwapEndian_32p rest"
| "SwapEndian_32p rest = rest"

definition decode_CigarOp :: "bool \<Rightarrow> byte list \<Rightarrow> nat \<Rightarrow> CigarOp" where
  "decode_CigarOp bigEndian allCharData off =
     (let w0 = UnpackUnsignedInt bigEndian allCharData off;
          w = (if bigEndian then SwapEndian_32 w0 else w0)
      in \<lparr>Type = BAM_CIGAR_LOOKUP (unat (w AND BAM_CIGAR_MASK)),
          Length = drop_bit BAM_CIGAR_SHIFT w\<rparr>)"

text \<open>
  The part of \<^verbatim>\<open>LoadNextAlignmentInternal\<close> behind the block length: the core, the
  character data and the CIGAR operations. The fields of the caller's alignment are
  assigned one by one, so that a failure late in the record leaves the earlier ones set.
\<close>

definition load_core_and_data ::
  "BamReaderPrivate \<Rightarrow> BamAlignment \<Rightarrow> 32 word \<Rightarrow> bool \<times> BamAlignment \<times> BamReaderPrivate" where
  "load_core_and_data r1 alignment blockLength =
     (let big = m_isBigEndian r1
      in case stream_Read (m_stream r1) BAM_CORE_SIZE of (x0, st2) \<Rightarrow>
        let r2 = r1\<lparr>m_stream := st2\<rparr>
        in if length x0 \<noteq> BAM_CORE_SIZE then
             (False, alignment, r2\<lparr>cerr := cerr r2 @
                [''Expected more bytes reading BAM core. Is this file truncated or corrupted?'']\<rparr>)
           else
             let x = (if big then SwapEndian_32p x0 else x0);
                 a1 = alignment\<lparr>RefID := UnpackSignedInt big x 0,
                                 Position := UnpackSignedInt big x 4\<rparr>;
                 tempValue = UnpackUnsignedInt big x 8;
                 a2 = a1\<lparr>Bin := ucast (drop_bit 16 tempValue),
                         MapQuality := ucast (drop_bit 8 tempValue AND 0xff)\<rparr>;
                 queryNameLength = tempValue AND 0xff;
                 tempValue2 = UnpackUnsignedInt big x 12;
                 a3 = a2\<lparr>AlignmentFlag := ucast (drop_bit 16 tempValue2)\<rparr>;
                 numCigarOperations = tempValue2 AND 0xffff;
                 querySequenceLength = UnpackUnsignedInt big x 16;
                 a4 = a3\<lparr>MateRefID := UnpackSignedInt big x 20,
                         MatePosition := UnpackSignedInt big x 24,
                         InsertSize := UnpackSignedInt big x 28\<rparr>;
                 dataLength = blockLength - word_of_nat BAM_CORE_SIZE
             in case stream_Read st2 (unat dataLength) of (allCharData, st3) \<Rightarrow>
                  let r3 = r2\<lparr>m_stream := st3\<rparr>
                  in if length allCharData = unat dataLength then
                       let cigarData =
                             map (\<lambda>i. decode_CigarOp big allCharData
                                         (unat queryNameLength + 4 * i))
                               [0 ..< unat numCigarOperations];
                           a5 = a4\<lparr>CigarData := cigarData\<rparr>;
                           supportData =
                             \<lparr>AllCharData = allCharData, BlockLength = blockLength,
                              NumCigarOperations = numCigarOperations,
                              QueryNameLength = queryNameLength,
                              QuerySequenceLength = querySequenceLength,
                              HasCoreOnly = True\<rparr>
                       in (True, a5\<lparr>SupportData := supportData\<rparr>, r3)
                     else
                       (False, a4, r3\<lparr>cerr := cerr r3 @
                          [''Expected more bytes reading BAM char data. Is this file truncated or corrupted?'']\<rparr>))"

definition read_block_length :: "BamReaderPrivate \<Rightarrow> byte list \<Rightarrow> 32 word" where
  \<comment> \<open>the block length as decoded from the bytes that were read into the stack buffer\<close>
  "read_block_length r got =
     (let buffer = got @ drop (length got) (stack_buffer r);
          bl0 = UnpackUnsignedInt (m_isBigEndian r) buffer 0
      in if m_isBigEndian r then SwapEndian_32 bl0 else bl0)"

text \<open>
  The block length is tested by two nested \<^verbatim>\<open>if\<close> statements with the same condition,
  the inner one holding the \<^verbatim>\<open>return false\<close>.
\<close>

definition LoadNextAlignmentInternal ::
  "BamReaderPrivate \<Rightarrow> BamAlignment \<Rightarrow> bool \<times> BamAlignment \<times> BamReaderPrivate" where
  "LoadNextAlignmentInternal r alignment =
     (case stream_Read (m_stream r) 4 of (got, st1) \<Rightarrow>
        let r1 = r\<lparr>m_stream := st1\<rparr>
        in if 0 = length got then (False, alignment, r1)
           else
             let blockLength = read_block_length r got
             in if blockLength = 0 then
                  (if blockLength = 0 then (False, alignment, r1)
                   else load_core_and_data r1 alignment blockLength)
                else load_core_and_data r1 alignment blockLength)"

text \<open>
  \<^verbatim>\<open>LoadNextAlignment\<close>, as one call of the consumer sees it. With prefetching on, the
  call polls until the queue holds an entry and pops it; the result \<open>None\<close> stands for a
  call that finds the queue empty and waits for the worker. A null entry is the worker's
  end marker. With prefetching off the record is decoded in the caller.
\<close>

definition LoadNextAlignment ::
  "BamReaderPrivate \<Rightarrow> BamAlignment \<Rightarrow> (bool \<times> BamAlignment \<times> BamReaderPrivate) option" where
  "LoadNextAlignment r alignment =
     (if do_prefetch r then
        (case prefetch_alignments r of
           [] \<Rightarrow> None
         | al # rest \<Rightarrow>
             let r1 = r\<lparr>prefetch_alignments := rest\<rparr>
             in (case al of
                   None \<Rightarrow> Some (False, alignment, r1)
                 | Some a \<Rightarrow> Some (True, a, r1)))
      else Some (LoadNextAlignmentInternal r alignment))"

text \<open>
  \<^verbatim>\<open>GetNextAlignment(BamAlignment&)\<close>. The loop that reads until an overlap is found is
  \<open>read_until_overlap\<close>; every round takes an entry off the queue or bytes off the
  stream, which is why it ends. The in-memory device raises no \<^verbatim>\<open>BamException\<close>, so the
  handler of the source has no counterpart.
\<close>

definition reader_budget :: "BamReaderPrivate \<Rightarrow> nat" where
  "reader_budget r =
     (if do_prefetch r then length (prefetch_alignments r)
      else length (stream_bytes (m_stream r)) - stream_offset (m_stream r))"

function read_until_overlap ::
  "BamReaderPrivate \<Rightarrow> BamAlignment \<Rightarrow> RegionState \<Rightarrow>
     (bool \<times> BamAlignment \<times> BamReaderPrivate) option" where
  "read_until_overlap r alignment state =
     (if state \<noteq> OverlapsRegion then
        (case LoadNextAlignment r alignment of
           None \<Rightarrow> None
         | Some (False, a, r1) \<Rightarrow> Some (False, a, r1)
         | Some (True, a, r1) \<Rightarrow>
             let state1 = AlignmentState (m_randomAccessController r1) a
             in if state1 = AfterRegion then Some (False, a, r1)
                else read_until_overlap r1 a state1)
      else Some (True, alignment, r))"
  by pat_completeness auto
termination
proof -
  have budget: "reader_budget r' < reader_budget r"
    if load: "LoadNextAlignment r alignment = Some (True, a, r')"
    for r r' :: BamReaderPrivate and alignment a :: BamAlignment
  proof (cases "do_prefetch r")
    case True
    with load show ?thesis
      by (auto simp: LoadNextAlignment_def reader_budget_def Let_def
               split: list.splits option.splits)
  next
    case False
    with load have int: "LoadNextAlignmentInternal r alignment = (True, a, r')"
      by (simp add: LoadNextAlignment_def)
    obtain got st1 where rd: "stream_Read (m_stream r) 4 = (got, st1)"
      by fastforce
    from int rd have ne: "0 < length got"
      by (auto simp: LoadNextAlignmentInternal_def Let_def)
    from int rd ne obtain bl
      where body: "load_core_and_data (r\<lparr>m_stream := st1\<rparr>) alignment bl = (True, a, r')"
      by (auto simp: LoadNextAlignmentInternal_def Let_def split: if_splits)
    from rd have s1: "stream_offset st1 = stream_offset (m_stream r) + length got"
      "stream_bytes st1 = stream_bytes (m_stream r)"
      "length got \<le> length (stream_bytes (m_stream r)) - stream_offset (m_stream r)"
      by (auto simp: stream_Read_def Let_def)
    from s1(3) ne
    have le: "stream_offset (m_stream r) + length got \<le> length (stream_bytes (m_stream r))"
      by linarith
    from body have b: "stream_bytes (m_stream r') = stream_bytes st1"
      "stream_offset st1 \<le> stream_offset (m_stream r')"
      "do_prefetch r' = do_prefetch r"
      by (auto simp: load_core_and_data_def Let_def stream_Read_def
               split: prod.splits if_splits)
    from b(2) s1(1) ne have "stream_offset (m_stream r) < stream_offset (m_stream r')"
      by linarith
    moreover from le ne have "stream_offset (m_stream r) < length (stream_bytes (m_stream r))"
      by linarith
    ultimately have "length (stream_bytes (m_stream r)) - stream_offset (m_stream r')
        < length (stream_bytes (m_stream r)) - stream_offset (m_stream r)"
      by (rule diff_less_mono2)
    with b(1,3) s1(2) False show ?thesis
      by (simp add: reader_budget_def)
  qed
  show ?thesis
    by (relation "measure (\<lambda>(r, alignment, state). reader_budget r)")
       (auto dest: budget)
qed

definition GetNextAlignment ::
  "BamReaderPrivate \<Rightarrow> BamAlignment \<Rightarrow> (bool \<times> BamAlignment \<times> BamReaderPrivate) option" where
  "GetNextAlignment r alignment =
     (if \<not> stream_open (m_stream r) then Some (False, alignment, r)
      else if HasRegion (m_randomAccessController r)
              \<and> \<not> RegionHasAlignments (m_randomAccessController r)
      then Some (False, alignment, r)
      else
        (case LoadNextAlignment r alignment of
           None \<Rightarrow> None
         | Some (False, a, r1) \<Rightarrow> Some (False, a, r1)
         | Some (True, a, r1) \<Rightarrow>
             let state = AlignmentState (m_randomAccessController r1) a
             in if state = AfterRegion then Some (False, a, r1)
                else read_until_overlap r1 a state))"


text \<open>
  A reader as \<^verbatim>\<open>Open\<close> leaves it on a little-endian host with multithreading disabled:
  the stream open at the first alignment, no region, no prefetch worker. The header and
  the reference data, parsed by code outside the sources at hand, are left empty, and the
  stream holds the alignment records only.
\<close>

definition reader_on :: "byte list \<Rightarrow> BamReaderPrivate" where
  "reader_on bs =
     \<lparr>m_stream = \<lparr>stream_bytes = bs, stream_offset = 0, stream_open = True\<rparr>,
      m_isBigEndian = False, m_references = [], m_header = [], m_filename = ''in.bam'',
      m_alignmentsBeginOffset = 0, m_errorString = [],
      m_randomAccessController =
        \<lparr>HasRegion = False, RegionHasAlignments = False,
         AlignmentState = (\<lambda>a. OverlapsRegion)\<rparr>,
      do_prefetch = False, prefetch_thread = NotCreated, prefetch_alignments = [],
      prefetch_tell_fail = [], stack_buffer = [0, 0, 0, 0], cerr = []\<rparr>"

text \<open>
  The bytes of a record without character data, on reference 0 at the given position:
  block length 32, then the eight 32-bit words of the core.
\<close>

definition core_record :: "byte \<Rightarrow> byte list" where
  "core_record position =
     [32, 0, 0, 0] @ [0, 0, 0, 0] @ [position, 0, 0, 0] @ replicate 24 0"



section \<open>ReadSorter: comparators and the merge queue\<close>

text \<open>
  Modelled from the spec: the comparators \<^verbatim>\<open>Sort::ByPosition\<close> and \<^verbatim>\<open>Sort::ByName\<close> live
  in \<^verbatim>\<open>api/algorithms/Sort.h\<close>, outside the sources at hand. By the spec,
  \<^verbatim>\<open>ByPosition\<close> is lexicographic on the reference id and the position, with the
  reference id \<open>- 1\<close> behind all valid ones, and \<^verbatim>\<open>ByName\<close> is lexicographic on the query
  name, then by the first-in-pair bit of the flags (bit \<open>0x40\<close>), the first mate in
  front.
\<close>

definition position_key :: "BamAlignment \<Rightarrow> int \<times> int" where
  "position_key a =
     (if sint (RefID a) = - 1 then 2 ^ 31 else sint (RefID a), sint (Position a))"

definition ByPosition :: "BamAlignment \<Rightarrow> BamAlignment \<Rightarrow> bool" where
  "ByPosition lhs rhs =
     (fst (position_key lhs) < fst (position_key rhs)
      \<or> (fst (position_key lhs) = fst (position_key rhs)
          \<and> snd (position_key lhs) < snd (position_key rhs)))"

definition IsFirstMate :: "BamAlignment \<Rightarrow> bool" where
  "IsFirstMate a = (AlignmentFlag a AND 0x40 \<noteq> 0)"

definition ByName :: "BamAlignment \<Rightarrow> BamAlignment \<Rightarrow> bool" where
  "ByName lhs rhs =
     (Name lhs < Name rhs
      \<or> (Name lhs = Name rhs \<and> IsFirstMate lhs \<and> \<not> IsFirstMate rhs))"

datatype SortOrder = SORT_NAME | SORT_POSITION

text \<open>
  An element of the merge queue: a read and the reader it came from, here the index of the
  reader in the vector of readers. \<^verbatim>\<open>operator<\<close> constructs \<^verbatim>\<open>Sort::ByPosition\<close> and
  compares the reads with it; it consults neither the sort order nor the source.
\<close>

record SortedMergeElement =
  read :: BamAlignment
  source :: nat

definition SortedMergeElement_less :: "SortedMergeElement \<Rightarrow> SortedMergeElement \<Rightarrow> bool" where
  "SortedMergeElement_less this t = ByPosition (read this) (read t)"

text \<open>
  The queue is a \<^verbatim>\<open>std::multiset\<close>, kept here as the list of its elements in iteration
  order. \<^verbatim>\<open>insert\<close> places an element at the upper bound of its key: in front of the
  first element that is greater, behind all elements that are not.
\<close>

fun multiset_insert ::
  "SortedMergeElement \<Rightarrow> SortedMergeElement list \<Rightarrow> SortedMergeElement list" where
  "multiset_insert e [] = [e]"
| "multiset_insert e (x # xs) =
     (if SortedMergeElement_less e x then e # x # xs else x # multiset_insert e xs)"

text \<open>
  A reader on a temp file is the list of the records it has not delivered yet;
  \<^verbatim>\<open>GetNextAlignment()\<close> on reader \<open>i\<close> takes the first of them, or returns null.
\<close>

definition reader_GetNextAlignment ::
  "BamAlignment list list \<Rightarrow> nat \<Rightarrow> BamAlignment option \<times> BamAlignment list list" where
  "reader_GetNextAlignment readers i =
     (if i < length readers then
        (case readers ! i of
           [] \<Rightarrow> (None, readers)
         | a # rest \<Rightarrow> (Some a, readers[i := rest]))
      else (None, readers))"

text \<open>The first loop of the merge: one read from each reader, in the order of the readers.\<close>

fun seed_reads ::
  "nat list \<Rightarrow> BamAlignment list list \<Rightarrow> SortedMergeElement list \<Rightarrow>
     BamAlignment list list \<times> SortedMergeElement list" where
  "seed_reads [] readers reads = (readers, reads)"
| "seed_reads (ctr # ctrs) readers reads =
     (case reader_GetNextAlignment readers ctr of
        (None, readers1) \<Rightarrow> seed_reads ctrs readers1 reads
      | (Some a, readers1) \<Rightarrow>
          seed_reads ctrs readers1 (multiset_insert \<lparr>read = a, source = ctr\<rparr> reads))"

text \<open>
  The steady state: take the first element off the queue, put its read out, fetch the next
  read of the same source and insert it, unless the source is drained. The function
  returns the elements in the order in which they were taken off.
\<close>

function merge_loop ::
  "BamAlignment list list \<Rightarrow> SortedMergeElement list \<Rightarrow> SortedMergeElement list" where
  "merge_loop readers [] = []"
| "merge_loop readers (el # reads) =
     el # (case reader_GetNextAlignment readers (source el) of
             (None, readers1) \<Rightarrow> merge_loop readers1 reads
           | (Some a, readers1) \<Rightarrow>
               merge_loop readers1 (multiset_insert (el\<lparr>read := a\<rparr>) reads))"
  by pat_completeness auto
termination
proof -
  have ins: "length (multiset_insert e q) = Suc (length q)" for e q
    by (induction q) auto
  have upd: "sum_list (map length (rs[i := rest])) < sum_list (map length rs)"
    if "i < length rs" "rs ! i = a # rest" for rs :: "BamAlignment list list" and i a rest
    using that
  proof (induction rs arbitrary: i)
    case Nil
    then show ?case by simp
  next
    case (Cons r rs)
    then show ?case by (cases i) auto
  qed
  show ?thesis
    by (relation "measure (\<lambda>(readers, reads). 2 * sum_list (map length readers) + length reads)")
       (auto simp: reader_GetNextAlignment_def ins split: if_splits list.splits dest: upd)
qed

definition merge_elements :: "BamAlignment list list \<Rightarrow> SortedMergeElement list" where
  "merge_elements runs =
     (case seed_reads [0 ..< length runs] runs [] of
        (readers, reads) \<Rightarrow> merge_loop readers reads)"

definition merge_runs :: "BamAlignment list list \<Rightarrow> BamAlignment list" where
  \<comment> \<open>what the merge hands to \<^verbatim>\<open>putOutputAlignment\<close>, in order\<close>
  "merge_runs runs = map read (merge_elements runs)"

text \<open>
  The order of entry into the queue, read off the output of the merge. A reader has one
  record in the queue at a time: the record put out at position \<open>p\<close> was read and inserted
  when the previous record of the same reader was taken off, and in the first loop when
  there is no such record. \<open>previous_from s out p\<close> is the last position in front of \<open>p\<close>
  at which the output holds a record of reader \<open>s\<close>.
\<close>

primrec previous_from :: "nat \<Rightarrow> SortedMergeElement list \<Rightarrow> nat \<Rightarrow> nat option" where
  "previous_from s out 0 = None"
| "previous_from s out (Suc p) =
     (if source (out ! p) = s then Some p else previous_from s out p)"

definition entered :: "SortedMergeElement list \<Rightarrow> nat \<Rightarrow> nat option" where
  \<comment> \<open>\<open>None\<close>: inserted by the first loop; \<open>Some a\<close>: inserted in the round that put out
      position \<open>a\<close>\<close>
  "entered out p = previous_from (source (out ! p)) out p"

definition entered_before :: "SortedMergeElement list \<Rightarrow> nat \<Rightarrow> nat \<Rightarrow> bool" where
  \<comment> \<open>the first loop runs in front of all rounds and goes through the readers by index\<close>
  "entered_before out p p' =
     (case (entered out p, entered out p') of
        (None, None) \<Rightarrow> source (out ! p) < source (out ! p')
      | (None, Some b) \<Rightarrow> True
      | (Some a, None) \<Rightarrow> False
      | (Some a, Some b) \<Rightarrow> a < b)"

definition queue_order ::
  "(nat \<Rightarrow> nat) \<Rightarrow> SortedMergeElement \<Rightarrow> SortedMergeElement \<Rightarrow> bool" where
  \<comment> \<open>in front in the queue: the smaller key, and of two equal keys the one whose source
      has the smaller rank\<close>
  "queue_order rank x y =
     (SortedMergeElement_less x y
      \<or> (\<not> SortedMergeElement_less y x \<and> rank (source x) < rank (source y)))"

text \<open>An alignment with a name, on reference 0 at a position.\<close>

definition named_at :: "string \<Rightarrow> 32 word \<Rightarrow> BamAlignment" where
  "named_at n p = BamAlignment_new\<lparr>Name := n, RefID := 0, Position := p\<rparr>"

definition position_le :: "BamAlignment \<Rightarrow> BamAlignment \<Rightarrow> bool" where
  \<comment> \<open>not behind, in the order of \<^verbatim>\<open>ByPosition\<close>\<close>
  "position_le a b = (\<not> ByPosition b a)"

section \<open>ReadSorter: runs, temp files and the top-level call\<close>

text \<open>
  The sorter with the members that \<^verbatim>\<open>Run\<close> and the functions below it touch. The class
  declaration is outside the sources at hand; \<^verbatim>\<open>sort_retval\<close> and \<^verbatim>\<open>merge_retval\<close> are
  members that \<^verbatim>\<open>read_sorter.cpp\<close> reads and never assigns, so their values are those of
  the state \<^verbatim>\<open>Run\<close> starts in. The upstream stage is the list of alignments that
  \<^verbatim>\<open>getInputAlignment\<close> hands out one by one, the downstream stage the list of alignments
  passed to \<^verbatim>\<open>putOutputAlignment\<close>. The file system is a map from file names to the
  records of the temp files (written by \<^verbatim>\<open>BamWriter\<close>, read back by \<^verbatim>\<open>BamReader\<close>),
  together with the predicate that tells for which names \<^verbatim>\<open>BamWriter::Open\<close> succeeds.
  Progress messages of the verbose mode are left out.
\<close>

record ReadSorter =
  sort_order :: SortOrder
  nothreads :: bool
  alignments_per_tempfile :: nat
  tmp_file_dir :: string
  m_tempFilenameStub :: string
  m_numberOfRuns :: nat
  m_tempFilenames :: "string list"
  m_header_SortOrder :: string
  sort_retval :: bool
  merge_retval :: bool
  input_alignments :: "BamAlignment list"
  output_alignments :: "BamAlignment list"
  temp_files :: "string \<rightharpoonup> BamAlignment list"
  writable :: "string \<Rightarrow> bool"
  sorter_cerr :: "string list"

text \<open>A call either returns or ends the process through \<^verbatim>\<open>exit\<close>.\<close>

datatype outcome = Exited int ReadSorter | Returned bool ReadSorter

text \<open>\<^verbatim>\<open>std::stable_sort\<close> with a comparator: equal elements keep their order.\<close>

fun stable_insert :: "('a \<Rightarrow> 'a \<Rightarrow> bool) \<Rightarrow> 'a \<Rightarrow> 'a list \<Rightarrow> 'a list" where
  "stable_insert cmp x [] = [x]"
| "stable_insert cmp x (y # ys) =
     (if cmp x y then x # y # ys else y # stable_insert cmp x ys)"

definition stable_sort :: "('a \<Rightarrow> 'a \<Rightarrow> bool) \<Rightarrow> 'a list \<Rightarrow> 'a list" where
  "stable_sort cmp xs = foldl (\<lambda>acc x. stable_insert cmp x acc) [] xs"

text \<open>
  Modelled from the spec: \<^verbatim>\<open>ogeSortMt\<close> is declared in \<^verbatim>\<open>thread_pool.h\<close>, outside the
  sources; the spec describes it as a parallel stable merge sort, whose result is that of
  the stable sort.
\<close>

definition ogeSortMt :: "('a \<Rightarrow> 'a \<Rightarrow> bool) \<Rightarrow> 'a list \<Rightarrow> 'a list" where
  "ogeSortMt cmp xs = stable_sort cmp xs"

definition SortBuffer :: "ReadSorter \<Rightarrow> BamAlignment list \<Rightarrow> BamAlignment list" where
  "SortBuffer s buffer =
     (if nothreads s then
        (if sort_order s = SORT_NAME then stable_sort ByName buffer
         else stable_sort ByPosition buffer)
      else
        (if sort_order s = SORT_NAME then ogeSortMt ByName buffer
         else ogeSortMt ByPosition buffer))"

definition WriteTempFile :: "ReadSorter \<Rightarrow> BamAlignment list \<Rightarrow> string \<Rightarrow> bool \<times> ReadSorter" where
  "WriteTempFile s buffer tempFilename =
     (if \<not> writable s tempFilename then
        (False, s\<lparr>sorter_cerr := sorter_cerr s @
           [''bamtools sort ERROR: could not open '' @ tempFilename @ '' for writing.'']\<rparr>)
      else (True, s\<lparr>temp_files := (temp_files s)(tempFilename \<mapsto> buffer)\<rparr>))"

text \<open>The decimal digits that \<^verbatim>\<open>operator<<\<close> prints for the number of the run.\<close>

fun decimal :: "nat \<Rightarrow> string" where
  "decimal n =
     (if n < 10 then [char_of (48 + n)]
      else decimal (n div 10) @ [char_of (48 + n mod 10)])"

text \<open>
  The job that the threaded path hands to the pool: sort, write, report a failure on the
  error stream and drop the result. A job touches its own temp file only, and
  \<^verbatim>\<open>GenerateSortedRuns\<close> waits for all jobs before it returns, so the job is run here at the
  place where it is added to the pool.
\<close>

definition TempFileWriteJob_runJob :: "ReadSorter \<Rightarrow> BamAlignment list \<Rightarrow> string \<Rightarrow> ReadSorter" where
  "TempFileWriteJob_runJob s buffer filename =
     (case WriteTempFile s (SortBuffer s buffer) filename of
        (success, s1) \<Rightarrow>
          if \<not> success
          then s1\<lparr>sorter_cerr := sorter_cerr s1 @
                 [''Problem writing out temporary file '' @ filename]\<rparr>
          else s1)"

definition CreateSortedTempFile :: "ReadSorter \<Rightarrow> BamAlignment list \<Rightarrow> bool \<times> ReadSorter" where
  "CreateSortedTempFile s buffer =
     (let filename = tmp_file_dir s @ m_tempFilenameStub s @ decimal (m_numberOfRuns s);
          s1 = s\<lparr>m_tempFilenames := m_tempFilenames s @ [filename],
                 m_numberOfRuns := m_numberOfRuns s + 1\<rparr>
      in if nothreads s1 then WriteTempFile s1 (SortBuffer s1 buffer) filename
         else (True, TempFileWriteJob_runJob s1 buffer filename))"

text \<open>
  The loop of \<^verbatim>\<open>GenerateSortedRuns\<close> over the input. The result of
  \<^verbatim>\<open>CreateSortedTempFile\<close> is not looked at.
\<close>

fun fill_buffers :: "ReadSorter \<Rightarrow> BamAlignment list \<Rightarrow> BamAlignment list \<Rightarrow> ReadSorter \<times> BamAlignment list" where
  "fill_buffers s buffer [] = (s\<lparr>input_alignments := []\<rparr>, buffer)"
| "fill_buffers s buffer (al # rest) =
     (let bufferFull = (length buffer \<ge> alignments_per_tempfile s)
      in if \<not> bufferFull then fill_buffers s (buffer @ [al]) rest
         else fill_buffers (snd (CreateSortedTempFile s buffer)) [al] rest)"

definition GenerateSortedRuns :: "ReadSorter \<Rightarrow> bool \<times> ReadSorter" where
  "GenerateSortedRuns s =
     (let s1 = s\<lparr>m_header_SortOrder :=
                   (if sort_order s = SORT_NAME then ''queryname'' else ''coordinate'')\<rparr>
      in case (if sort_order s1 = SORT_NAME then fill_buffers s1 [] (input_alignments s1)
               else fill_buffers s1 [] (input_alignments s1)) of
           (s2, buffer) \<Rightarrow>
             (True, if buffer \<noteq> [] then snd (CreateSortedTempFile s2 buffer) else s2))"

text \<open>
  Opening one reader per temp file; \<open>Inl\<close> names the first file that cannot be opened.
\<close>

fun open_readers :: "(string \<rightharpoonup> BamAlignment list) \<Rightarrow> string list \<Rightarrow> string + BamAlignment list list" where
  "open_readers files [] = Inr []"
| "open_readers files (f # fs) =
     (case files f of
        None \<Rightarrow> Inl f
      | Some records \<Rightarrow>
          (case open_readers files fs of
             Inl g \<Rightarrow> Inl g
           | Inr readers \<Rightarrow> Inr (records # readers)))"

definition MergeSortedRuns :: "ReadSorter \<Rightarrow> outcome" where
  "MergeSortedRuns s =
     (case open_readers (temp_files s) (m_tempFilenames s) of
        Inl f \<Rightarrow>
          Exited (- 1) (s\<lparr>sorter_cerr := sorter_cerr s @
                           [''Error opening reader for tempfile '' @ f]\<rparr>)
      | Inr readers \<Rightarrow>
          let s1 = s\<lparr>output_alignments := output_alignments s @ merge_runs readers\<rparr>;
              s2 = s1\<lparr>temp_files :=
                        (\<lambda>f. if f \<in> set (m_tempFilenames s1) then None else temp_files s1 f)\<rparr>
          in Returned True s2)"

definition RunSort :: "ReadSorter \<Rightarrow> outcome" where
  "RunSort s =
     (case GenerateSortedRuns s of
        (True, s1) \<Rightarrow> MergeSortedRuns s1
      | (False, s1) \<Rightarrow> Returned False s1)"

text \<open>
  \<^verbatim>\<open>Run\<close>: the result of \<^verbatim>\<open>RunSort\<close> is dropped, and the value returned is the
  conjunction of the two members.
\<close>

definition Run :: "ReadSorter \<Rightarrow> outcome" where
  "Run s =
     (let s1 = s\<lparr>m_header_SortOrder :=
                   (if sort_order s = SORT_NAME then ''queryname'' else ''coordinate'')\<rparr>
      in case RunSort s1 of
           Exited code s2 \<Rightarrow> Exited code s2
         | Returned r s2 \<Rightarrow> Returned (sort_retval s2 \<and> merge_retval s2) s2)"

text \<open>
  A sorter before \<^verbatim>\<open>Run\<close>, with both result members set: the sort order, whether threads
  are off, the size of the buffer, the input, and the predicate of the writable names. No
  temp file exists.
\<close>

definition sorter_on ::
  "SortOrder \<Rightarrow> bool \<Rightarrow> nat \<Rightarrow> BamAlignment list \<Rightarrow> (string \<Rightarrow> bool) \<Rightarrow> ReadSorter" where
  "sorter_on order nothr n als w =
     \<lparr>sort_order = order, nothreads = nothr, alignments_per_tempfile = n,
      tmp_file_dir = ''/tmp/'', m_tempFilenameStub = ''oge_sort_'', m_numberOfRuns = 0,
      m_tempFilenames = [], m_header_SortOrder = [], sort_retval = True, merge_retval = True,
      input_alignments = als, output_alignments = [], temp_files = Map.empty, writable = w,
      sorter_cerr = []\<rparr>"

text \<open>What a caller sees of an outcome: the exit code or the value returned, and the names put out.\<close>

definition observe :: "outcome \<Rightarrow> (int + bool) \<times> string list" where
  "observe out =
     (case out of
        Exited code s \<Rightarrow> (Inl code, map Name (output_alignments s))
      | Returned r s \<Rightarrow> (Inr r, map Name (output_alignments s)))"

text \<open>
  What is still to come from source \<open>i\<close>: its element in the queue, if it has one, and
  behind it the records its reader has not delivered.
\<close>

definition pending :: "BamAlignment list list \<Rightarrow> SortedMergeElement list \<Rightarrow> nat \<Rightarrow> BamAlignment list" where
  "pending readers reads i = map read (filter (\<lambda>e. source e = i) reads) @ readers ! i"

section \<open>FastqWriter\<close>

text \<open>
  The three output streams are pointers in the source, all to \<^verbatim>\<open>cout\<close> until \<^verbatim>\<open>Open\<close>
  redirects them to the three files, and \<^verbatim>\<open>SaveAlignment\<close> compares two of them. The
  model keeps a store of streams under their identities. A stream is the text written to
  it, its fail bit, and whether it has a device behind it: \<^verbatim>\<open>cout\<close> always has, a file
  stream from a successful \<^verbatim>\<open>open\<close> to the next \<^verbatim>\<open>close\<close>. Output to a failed stream is
  dropped, and output to a file stream without a file fails. Which files can be created is
  a predicate of the environment.
\<close>

datatype stream_id = Cout | FwdFile | RevFile | OrphanFile

record ostream =
  content :: string
  failbit :: bool
  attached :: bool

record fastq_record_t =
  seq :: string
  qual :: string

record FastqWriter =
  fwd_stream :: stream_id
  rev_stream :: stream_id
  orphan_stream :: stream_id
  streams :: "stream_id \<Rightarrow> ostream"
  is_open :: bool
  filename :: string
  potential_pairs :: "(string \<times> fastq_record_t) list"
  can_create :: "string \<Rightarrow> bool"
  fastq_cerr :: "string list"

datatype fastq_outcome = FastqExited int FastqWriter | FastqReturned bool FastqWriter

definition FastqWriter_new :: "(string \<Rightarrow> bool) \<Rightarrow> FastqWriter" where
  "FastqWriter_new creatable =
     \<lparr>fwd_stream = Cout, rev_stream = Cout, orphan_stream = Cout,
      streams = (\<lambda>i. \<lparr>content = [], failbit = False, attached = (i = Cout)\<rparr>),
      is_open = False, filename = [], potential_pairs = [], can_create = creatable,
      fastq_cerr = []\<rparr>"

definition put :: "stream_id \<Rightarrow> string \<Rightarrow> FastqWriter \<Rightarrow> FastqWriter" where
  \<comment> \<open>one statement of \<^verbatim>\<open><<\<close> on a stream\<close>
  "put i text w =
     (if failbit (streams w i) then w
      else if \<not> attached (streams w i)
      then w\<lparr>streams := (streams w)(i := (streams w i)\<lparr>failbit := True\<rparr>)\<rparr>
      else w\<lparr>streams := (streams w)(i := (streams w i)\<lparr>content := content (streams w i) @ text\<rparr>)\<rparr>)"

definition file_open :: "stream_id \<Rightarrow> string \<Rightarrow> FastqWriter \<Rightarrow> FastqWriter" where
  \<comment> \<open>\<^verbatim>\<open>ofstream::open\<close>: clears the state when the file is opened, and sets the fail bit
      when the file cannot be created or the stream has a file already\<close>
  "file_open i path w =
     (if can_create w path \<and> \<not> attached (streams w i)
      then w\<lparr>streams := (streams w)(i := (streams w i)\<lparr>failbit := False, attached := True\<rparr>)\<rparr>
      else w\<lparr>streams := (streams w)(i := (streams w i)\<lparr>failbit := True\<rparr>)\<rparr>)"

definition file_close :: "stream_id \<Rightarrow> FastqWriter \<Rightarrow> FastqWriter" where
  \<comment> \<open>\<^verbatim>\<open>ofstream::close\<close>: lets go of the file, and sets the fail bit when there is none\<close>
  "file_close i w =
     (if attached (streams w i)
      then w\<lparr>streams := (streams w)(i := (streams w i)\<lparr>attached := False\<rparr>)\<rparr>
      else w\<lparr>streams := (streams w)(i := (streams w i)\<lparr>failbit := True\<rparr>)\<rparr>)"

definition FastqWriter_Open :: "FastqWriter \<Rightarrow> string \<Rightarrow> bool \<times> FastqWriter" where
  "FastqWriter_Open w0 name =
     (let w = w0\<lparr>filename := name\<rparr>
      in if name \<noteq> ''stdout'' then
           let w1 = file_open FwdFile (name @ ''_1.fastq'') w
           in if failbit (streams w1 FwdFile) then
                (False, w1\<lparr>fastq_cerr := fastq_cerr w1 @
                           [''Failed to open FASTQ forward output file '' @ name]\<rparr>)
              else
                let w2 = file_open RevFile (name @ ''_2.fastq'') (w1\<lparr>fwd_stream := FwdFile\<rparr>)
                in if failbit (streams w2 RevFile) then
                     (False, w2\<lparr>fastq_cerr := fastq_cerr w2 @
                                [''Failed to open FASTQ reverse output file '' @ name]\<rparr>)
                   else
                     let w3 = file_open OrphanFile (name @ ''.fastq'') (w2\<lparr>rev_stream := RevFile\<rparr>)
                     in if failbit (streams w3 OrphanFile) then
                          (False, w3\<lparr>fastq_cerr := fastq_cerr w3 @
                                     [''Failed to open FASTQ orphan output file '' @ name]\<rparr>)
                        else (True, w3\<lparr>orphan_stream := OrphanFile, is_open := True\<rparr>)
         else (True, w\<lparr>is_open := True\<rparr>))"

text \<open>The four lines of a FASTQ entry, as the chains of \<^verbatim>\<open><<\<close> print them.\<close>

definition fastq_entry :: "string \<Rightarrow> string \<Rightarrow> string \<Rightarrow> string" where
  "fastq_entry header bases quals =
     ''@'' @ header @ ''\<newline>'' @ bases @ ''\<newline>'' @ ''+'' @ header @ ''\<newline>'' @ quals @ ''\<newline>''"

definition FastqWriter_Close :: "FastqWriter \<Rightarrow> bool \<times> FastqWriter" where
  "FastqWriter_Close w =
     (let w1 = foldl (\<lambda>w' (name, rec'). put (orphan_stream w') (fastq_entry name (seq rec') (qual rec')) w')
                 w (potential_pairs w);
          w2 = (if is_open w1
                then file_close OrphanFile (file_close RevFile (file_close FwdFile w1))
                else w1)
      in (True, w2\<lparr>is_open := False\<rparr>))"

fun compliment_char :: "char \<Rightarrow> char" where
  "compliment_char c =
     (if c = CHR ''A'' then CHR ''T'' else if c = CHR ''C'' then CHR ''G''
      else if c = CHR ''G'' then CHR ''C'' else if c = CHR ''T'' then CHR ''A''
      else if c = CHR ''a'' then CHR ''t'' else if c = CHR ''c'' then CHR ''g''
      else if c = CHR ''g'' then CHR ''c'' else if c = CHR ''t'' then CHR ''a''
      else c)"

definition compliment :: "string \<Rightarrow> string" where
  "compliment str = map compliment_char str"

text \<open>
  \<^verbatim>\<open>potential_pairs\<close> is a \<^verbatim>\<open>std::map\<close> from names to records: here the list of its
  entries in the order of the keys, which is the order in which \<^verbatim>\<open>Close\<close> walks it.
\<close>

fun map_store :: "string \<Rightarrow> 'v \<Rightarrow> (string \<times> 'v) list \<Rightarrow> (string \<times> 'v) list" where
  "map_store k v [] = [(k, v)]"
| "map_store k v ((k', v') # rest) =
     (if k < k' then (k, v) # (k', v') # rest
      else if k = k' then (k, v) # rest
      else (k', v') # map_store k v rest)"

definition map_erase :: "string \<Rightarrow> (string \<times> 'v) list \<Rightarrow> (string \<times> 'v) list" where
  "map_erase k m = filter (\<lambda>(k', v). k' \<noteq> k) m"

text \<open>
  Modelled from the spec: \<^verbatim>\<open>BamAlignment::IsReverseStrand\<close> is outside the sources; it
  tests the reverse-strand bit \<open>0x10\<close> of the flags. \<^verbatim>\<open>BuildCharData\<close>, outside the
  sources as well, fills the name, the bases and the qualities from the support data; the
  alignments handed to \<open>SaveAlignment\<close> below are taken with these three fields built.
\<close>

definition IsReverseStrand :: "BamAlignment \<Rightarrow> bool" where
  "IsReverseStrand a = (AlignmentFlag a AND 0x10 \<noteq> 0)"

definition SaveAlignment :: "FastqWriter \<Rightarrow> BamAlignment \<Rightarrow> fastq_outcome" where
  "SaveAlignment w a =
     (if fwd_stream w = rev_stream w then
        FastqReturned True (put (fwd_stream w) (fastq_entry (Name a) (QueryBases a) (Qualities a)) w)
      else
        (case map_of (potential_pairs w) (Name a) of
           None \<Rightarrow>
             FastqReturned True
               (w\<lparr>potential_pairs :=
                    map_store (Name a) \<lparr>seq = QueryBases a, qual = Qualities a\<rparr>
                      (potential_pairs w)\<rparr>)
         | Some rec' \<Rightarrow>
             let fwd_seq = (if IsReverseStrand a then seq rec' else QueryBases a);
                 fwd_qual = (if IsReverseStrand a then qual rec' else Qualities a);
                 rev_seq = (if IsReverseStrand a then QueryBases a else seq rec');
                 rev_qual = (if IsReverseStrand a then Qualities a else qual rec');
                 rev_seq1 = compliment (rev rev_seq);
                 rev_qual1 = rev rev_qual;
                 w1 = put (fwd_stream w) (fastq_entry (Name a @ ''/1'') fwd_seq fwd_qual) w;
                 w2 = put (rev_stream w1) (fastq_entry (Name a @ ''/2'') rev_seq1 rev_qual1) w1
             in if failbit (streams w2 (fwd_stream w2)) \<or> failbit (streams w2 (rev_stream w2))
                then FastqExited (- 1)
                       (w2\<lparr>fastq_cerr := fastq_cerr w2 @
                             [''Error writing out line to fastq file. Aborting.'']\<rparr>)
                else FastqReturned True
                       (w2\<lparr>potential_pairs := map_erase (Name a) (potential_pairs w2)\<rparr>)))"

text \<open>A caller that saves a list of alignments one after the other.\<close>

fun save_all :: "FastqWriter \<Rightarrow> BamAlignment list \<Rightarrow> fastq_outcome" where
  "save_all w [] = FastqReturned True w"
| "save_all w (a # as) =
     (case SaveAlignment w a of
        FastqExited code w1 \<Rightarrow> FastqExited code w1
      | FastqReturned ok w1 \<Rightarrow> save_all w1 as)"







text \<open>An alignment with a name, bases, qualities and flags, for the examples.\<close>

definition fastq_read :: "string \<Rightarrow> string \<Rightarrow> string \<Rightarrow> 16 word \<Rightarrow> BamAlignment" where
  "fastq_read n bases quals flags =
     BamAlignment_new\<lparr>Name := n, QueryBases := bases, Qualities := quals, AlignmentFlag := flags\<rparr>"


text \<open>
  Four alignments: the two mates of r1 (the second on the reverse strand) with r2 between
  them, and r0.
\<close>

definition example_reads :: "BamAlignment list" where
  "example_reads =
     [fastq_read ''r1'' ''ACGT'' ''IIJJ'' 0x40, fastq_read ''r2'' ''AAAA'' ''FFFF'' 0x40,
      fastq_read ''r1'' ''TTGA'' ''ABCD'' 0x90, fastq_read ''r0'' ''CC'' ''EE'' 0x40]"

definition files_after :: "string \<Rightarrow> BamAlignment list \<Rightarrow> string \<times> string \<times> string" where
  \<comment> \<open>the forward, reverse and orphan files after \<^verbatim>\<open>Open\<close>, the saves and \<^verbatim>\<open>Close\<close>\<close>
  "files_after name als =
     (case FastqWriter_Open (FastqWriter_new (\<lambda>f. True)) name of
        (ok, w0) \<Rightarrow>
          (case save_all w0 als of
             FastqExited code w1 \<Rightarrow> ([], [], [])
           | FastqReturned r w1 \<Rightarrow>
               (case FastqWriter_Close w1 of
                  (closed, w2) \<Rightarrow>
                    (content (streams w2 FwdFile), content (streams w2 RevFile),
                     content (streams w2 OrphanFile)))))"

definition closed_writer :: FastqWriter where
  \<comment> \<open>the writer after \<^verbatim>\<open>Open\<close>, the saves of the four example reads and \<^verbatim>\<open>Close\<close>\<close>
  "closed_writer =
     (case FastqWriter_Open (FastqWriter_new (\<lambda>f. True)) ''out'' of
        (ok, w0) \<Rightarrow>
          (case save_all w0 example_reads of
             FastqExited code w1 \<Rightarrow> w1
           | FastqReturned r w1 \<Rightarrow> snd (FastqWriter_Close w1)))"

section \<open>The prefetch worker and its consumer\<close>

text \<open>
  The worker thread and the thread that calls \<^verbatim>\<open>LoadNextAlignment\<close> share the reader. The
  two take turns in an arbitrary order; a turn is what a thread does between two of its
  accesses to the shared queue. The worker is at one of five places: at the head of its
  loop, behind the push of an alignment, in one of the two polling loops of the throttle,
  or finished. A poll that finds its condition unchanged sleeps, which leaves the system
  as it is. \<^verbatim>\<open>count\<close> is an \<^verbatim>\<open>int\<close>: a word of 32 bits, whose increment wraps around
  from \<open>2 ^ 31 - 1\<close> to \<open>- 2 ^ 31\<close>, and \<^verbatim>\<open>count % 300\<close> is the remainder of the signed
  division of its value.
\<close>

datatype worker_pc = AtLoopHead | AfterPush | Waiting100 | Waiting5000 | Finished

record prefetch_system =
  reader :: BamReaderPrivate
  worker :: worker_pc
  worker_count :: "32 word"
  returned :: "BamAlignment option list"

text \<open>
  At the head of the loop the worker tests the flag, notes the stream position, decodes the
  next record into a fresh alignment and pushes it, or a null pointer when the decoding
  failed, after which it leaves the loop. The decoding touches the stream only, which the
  consumer does not use while prefetching is on, so the three actions form one turn.
\<close>

definition worker_fetch :: "prefetch_system \<Rightarrow> prefetch_system" where
  "worker_fetch s =
     (if \<not> do_prefetch (reader s) then s\<lparr>worker := Finished\<rparr>
      else
        let r = reader s;
            r1 = r\<lparr>prefetch_tell_fail := prefetch_tell_fail r @ [stream_Tell (m_stream r)]\<rparr>
        in case LoadNextAlignmentInternal r1 BamAlignment_new of
             (ok, a, r2) \<Rightarrow>
               if \<not> ok
               then s\<lparr>reader := r2\<lparr>prefetch_alignments := prefetch_alignments r2 @ [None]\<rparr>,
                      worker := Finished\<rparr>
               else s\<lparr>reader := r2\<lparr>prefetch_alignments := prefetch_alignments r2 @ [Some a]\<rparr>,
                      worker := AfterPush\<rparr>)"

text \<open>
  Behind the push, every 300th round, the worker reads the load average and the size of
  the queue. \<open>high\<close> tells whether the load is above half the number of cores. The source
  reads the size once in each of the two tests; consumer turns between the two reads
  change nothing that consumer turns in front of the first read could not, so the two
  tests form one turn.
\<close>

definition worker_throttle :: "bool \<Rightarrow> prefetch_system \<Rightarrow> prefetch_system" where
  "worker_throttle high s =
     (if sint (worker_count s) smod 300 = 0 then
        (if high \<and> length (prefetch_alignments (reader s)) > 400
         then s\<lparr>worker := Waiting100\<rparr>
         else if length (prefetch_alignments (reader s)) > 20000
         then s\<lparr>worker := Waiting5000\<rparr>
         else s\<lparr>worker := AtLoopHead, worker_count := worker_count s + 1\<rparr>)
      else s\<lparr>worker := AtLoopHead, worker_count := worker_count s + 1\<rparr>)"

definition worker_poll :: "nat \<Rightarrow> prefetch_system \<Rightarrow> prefetch_system" where
  "worker_poll bound s =
     (if length (prefetch_alignments (reader s)) > bound then s
      else s\<lparr>worker := AtLoopHead, worker_count := worker_count s + 1\<rparr>)"

definition worker_turn :: "bool \<Rightarrow> prefetch_system \<Rightarrow> prefetch_system" where
  "worker_turn high s =
     (case worker s of
        AtLoopHead \<Rightarrow> worker_fetch s
      | AfterPush \<Rightarrow> worker_throttle high s
      | Waiting100 \<Rightarrow> worker_poll 100 s
      | Waiting5000 \<Rightarrow> worker_poll 5000 s
      | Finished \<Rightarrow> s)"

text \<open>
  A turn of the consumer inside \<^verbatim>\<open>LoadNextAlignment()\<close>: with prefetching on, a poll of
  the empty queue sleeps, and otherwise the first entry is popped and returned; with
  prefetching off a fresh alignment is decoded in place.
\<close>

definition consumer_turn :: "prefetch_system \<Rightarrow> prefetch_system" where
  "consumer_turn s =
     (if do_prefetch (reader s) then
        (case prefetch_alignments (reader s) of
           [] \<Rightarrow> s
         | al # rest \<Rightarrow>
             s\<lparr>reader := (reader s)\<lparr>prefetch_alignments := rest\<rparr>,
               returned := returned s @ [al]\<rparr>)
      else
        (case LoadNextAlignmentInternal (reader s) BamAlignment_new of
           (ok, a, r1) \<Rightarrow>
             s\<lparr>reader := r1, returned := returned s @ [if ok then Some a else None]\<rparr>))"

datatype turn = WorkerTurn bool | ConsumerTurn

fun prefetch_turn :: "prefetch_system \<Rightarrow> turn \<Rightarrow> prefetch_system" where
  "prefetch_turn s (WorkerTurn high) = worker_turn high s"
| "prefetch_turn s ConsumerTurn = consumer_turn s"

definition run_schedule :: "turn list \<Rightarrow> prefetch_system \<Rightarrow> prefetch_system" where
  "run_schedule schedule s = foldl prefetch_turn s schedule"

text \<open>
  The system as \<^verbatim>\<open>Open\<close> leaves a freshly constructed reader when multithreading is
  enabled: the flag set, the worker created and about to enter its loop, the queues empty,
  nothing returned yet.
\<close>

definition prefetch_start :: "BamReaderPrivate \<Rightarrow> prefetch_system" where
  "prefetch_start r =
     \<lparr>reader = r\<lparr>do_prefetch := True, prefetch_thread := Joinable, prefetch_alignments := [],
                  prefetch_tell_fail := []\<rparr>,
      worker = AtLoopHead, worker_count = 0, returned = []\<rparr>"

text \<open>
  The results of \<open>n\<close> successive calls of \<^verbatim>\<open>LoadNextAlignment()\<close> with prefetching off:
  each call decodes into a fresh alignment and returns it, or null.
\<close>

primrec direct_loads :: "nat \<Rightarrow> BamReaderPrivate \<Rightarrow> BamAlignment option list" where
  "direct_loads 0 r = []"
| "direct_loads (Suc n) r =
     (case LoadNextAlignmentInternal r BamAlignment_new of
        (ok, a, r1) \<Rightarrow> (if ok then Some a else None) # direct_loads n r1)"

primrec reader_after :: "nat \<Rightarrow> BamReaderPrivate \<Rightarrow> BamReaderPrivate" where
  "reader_after 0 r = r"
| "reader_after (Suc n) r =
     reader_after n (snd (snd (LoadNextAlignmentInternal r BamAlignment_new)))"

definition decode_view :: "BamReaderPrivate \<Rightarrow> BgzfStream \<times> bool \<times> byte list \<times> string list" where
  \<comment> \<open>the part of the reader that the decoder reads or writes\<close>
  "decode_view r = (m_stream r, m_isBigEndian r, stack_buffer r, cerr r)"





definition with_prefetch ::
  "BamReaderPrivate \<Rightarrow> BamAlignment option list \<Rightarrow> int list \<Rightarrow> BamReaderPrivate" where
  \<comment> \<open>a reader with prefetching on and the two queues as given\<close>
  "with_prefetch r q f =
     r\<lparr>do_prefetch := True, prefetch_thread := Joinable, prefetch_alignments := q,
       prefetch_tell_fail := f\<rparr>"

definition in_file_order :: "BamReaderPrivate \<Rightarrow> prefetch_system \<Rightarrow> bool" where
  \<comment> \<open>what was returned and what is queued are together the first results of decoding
      the stream of \<open>r\<close> directly, and the worker has stopped at the first null, which is
      the last of them\<close>
  "in_file_order r s =
     (\<exists>k f. reader s = with_prefetch (reader_after k r) (prefetch_alignments (reader s)) f
          \<and> returned s @ prefetch_alignments (reader s) = direct_loads k r
          \<and> (worker s = Finished \<or> None \<notin> set (direct_loads k r))
          \<and> None \<notin> set (butlast (direct_loads k r)))"



section \<open>Properties of the reference lookup\<close>

lemma to_int32_small: "to_int32 n = int n" if "n < 2 ^ 31"
proof -
  have "sint (word_of_nat n :: 32 word) = signed_take_bit 31 (int n)"
    by (simp add: signed_of_nat)
  also have "\<dots> = int n"
    using that by (simp add: signed_take_bit_int_eq_self)
  finally show ?thesis
    by (simp add: to_int32_def)
qed

lemma find_distance_absent: "x \<notin> set xs \<Longrightarrow> find_distance xs x = length xs"
  by (induction xs) auto

lemma find_distance_first:
  "i < length xs \<Longrightarrow> xs ! i = x \<Longrightarrow> (\<forall>j<i. xs ! j \<noteq> x) \<Longrightarrow> find_distance xs x = i"
proof (induction xs arbitrary: i)
  case Nil
  then show ?case by simp
next
  case (Cons y ys)
  show ?case
  proof (cases i)
    case 0
    with Cons.prems show ?thesis by simp
  next
    case (Suc k)
    with Cons.prems(3) have "y \<noteq> x" by auto
    moreover have "find_distance ys x = k"
    proof (rule Cons.IH)
      show "k < length ys" using Cons.prems(1) Suc by simp
      show "ys ! k = x" using Cons.prems(2) Suc by simp
      show "\<forall>j<k. ys ! j \<noteq> x"
      proof (intro allI impI)
        fix j assume "j < k"
        then have "Suc j < i" using Suc by simp
        with Cons.prems(3) have "(y # ys) ! Suc j \<noteq> x" by blast
        then show "ys ! j \<noteq> x" by simp
      qed
    qed
    ultimately show ?thesis using Suc by simp
  qed
qed

text \<open>
  Claim C9. For a reference list of fewer than \<open>2 ^ 31\<close> entries (the range of the
  \<^verbatim>\<open>int\<close> that holds the index), \<^verbatim>\<open>GetReferenceID\<close> returns the zero-based index of the
  first reference whose name equals the given string, and \<open>- 1\<close>, not the size of the
  list, when no reference has that name.
\<close>

theorem GetReferenceID_first_match_or_minus_one:
  assumes "length refs < 2 ^ 31"
  shows "(\<forall>i<length refs.
            RefName (refs ! i) = refName \<and> (\<forall>j<i. RefName (refs ! j) \<noteq> refName)
            \<longrightarrow> GetReferenceID refs refName = int i)
         \<and> ((\<forall>ref\<in>set refs. RefName ref \<noteq> refName) \<longrightarrow> GetReferenceID refs refName = - 1)"
proof (intro conjI allI impI)
  fix i
  assume i: "i < length refs"
    and hit: "RefName (refs ! i) = refName \<and> (\<forall>j<i. RefName (refs ! j) \<noteq> refName)"
  have "find_distance (map RefName refs) refName = i"
    by (rule find_distance_first) (use i hit in auto)
  moreover have "to_int32 i = int i" "to_int32 (length refs) = int (length refs)"
    using i assms by (simp_all add: to_int32_small)
  ultimately show "GetReferenceID refs refName = int i"
    using i by (simp add: GetReferenceID_def)
next
  assume "\<forall>ref\<in>set refs. RefName ref \<noteq> refName"
  then have "refName \<notin> set (map RefName refs)" by auto
  then have "find_distance (map RefName refs) refName = length refs"
    by (simp add: find_distance_absent)
  then show "GetReferenceID refs refName = - 1"
    by (simp add: GetReferenceID_def)
qed

text \<open>The lookup on a list with a repeated name: the first of the two is found.\<close>

theorem GetReferenceID_witness:
  "GetReferenceID [\<lparr>RefName = ''chr1'', RefLength = 100\<rparr>, \<lparr>RefName = ''chr2'', RefLength = 50\<rparr>,
                   \<lparr>RefName = ''chr2'', RefLength = 70\<rparr>] ''chr2'' = 1
   \<and> GetReferenceID [\<lparr>RefName = ''chr1'', RefLength = 100\<rparr>, \<lparr>RefName = ''chr2'', RefLength = 50\<rparr>,
                   \<lparr>RefName = ''chr2'', RefLength = 70\<rparr>] ''chrX'' = - 1"
  using GetReferenceID_first_match_or_minus_one
          [of "[\<lparr>RefName = ''chr1'', RefLength = 100\<rparr>, \<lparr>RefName = ''chr2'', RefLength = 50\<rparr>,
                \<lparr>RefName = ''chr2'', RefLength = 70\<rparr>]" "''chr2''"]
        GetReferenceID_first_match_or_minus_one
          [of "[\<lparr>RefName = ''chr1'', RefLength = 100\<rparr>, \<lparr>RefName = ''chr2'', RefLength = 50\<rparr>,
                \<lparr>RefName = ''chr2'', RefLength = 70\<rparr>]" "''chrX''"]
  by (simp add: All_less_Suc2 numeral_3_eq_3)

section \<open>Properties of stopping the prefetch worker\<close>

text \<open>
  Claim C2. The claim asks that \<^verbatim>\<open>StopPrefetch\<close> has joined the worker thread when it
  returns. In the code the flag is cleared before the join is attempted and the join sits
  behind a test of the same flag, so it is never reached: after \<^verbatim>\<open>StopPrefetch\<close> the flag
  is off and the thread handle is as it was, for a running worker still not joined.
\<close>

theorem StopPrefetch_does_not_join:
  "\<not> do_prefetch (StopPrefetch r) \<and> prefetch_thread (StopPrefetch r) = prefetch_thread r"
  by (simp add: StopPrefetch_def Let_def)

section \<open>Properties of the alignment decoder\<close>

text \<open>
  Claim C6, as stated: at a zero block length the stream terminates as at the end of the
  file. At the end of the file every call returns null, however many follow. At a zero
  block length in front of the record at position 250, without prefetching, the first
  call returns null and the second one returns that record: \<^verbatim>\<open>GetNextAlignment\<close> fails
  and, called again, succeeds.
\<close>

theorem zero_block_length_does_not_end_stream_counterexample:
  "map (map_option (\<lambda>a. sint (Position a)))
       (direct_loads 3 (reader_on ([0, 0, 0, 0] @ core_record 250)))
     = [None, Some 250, None]
   \<and> direct_loads 3 (reader_on []) = [None, None, None]
   \<and> (case GetNextAlignment (reader_on ([0, 0, 0, 0] @ core_record 250)) BamAlignment_new of
        None \<Rightarrow> None
      | Some (ok, a, r) \<Rightarrow>
          Some (ok, map_option (\<lambda>(ok', a', r'). (ok', sint (Position a')))
                      (GetNextAlignment r a)))
     = Some (False, Some (True, 250))"
  by code_simp

text \<open>
  Claim C6, amended. When the read of the block-length field delivers no byte, the call of
  \<^verbatim>\<open>LoadNextAlignmentInternal\<close> returns false and leaves the reader and the alignment as
  they were: no error text, nothing printed. When it delivers bytes and the decoded block
  length is zero, the call returns false as well, and the reader differs from the one
  before the call only in the stream, which has advanced over the bytes of the
  block-length field (at most four) and no further. In both cases this call ends as a
  call at the end of the file does: without prefetching \<^verbatim>\<open>GetNextAlignment\<close> returns
  false, and with prefetching the worker pushes its null end marker and leaves its loop.
  The reader keeps no mark of an end of the stream: without prefetching the calls that
  follow decode from where the stream stands then.
\<close>

theorem LoadNextAlignmentInternal_zero_block_length:
  assumes "stream_Read (m_stream r) 4 = (got, st1)"
  shows "(got = [] \<longrightarrow> LoadNextAlignmentInternal r alignment = (False, alignment, r))
       \<and> (got \<noteq> [] \<and> read_block_length r got = 0 \<longrightarrow>
            LoadNextAlignmentInternal r alignment = (False, alignment, r\<lparr>m_stream := st1\<rparr>)
            \<and> stream_offset st1 = stream_offset (m_stream r) + length got
            \<and> length got \<le> 4)
       \<and> ((got = [] \<or> read_block_length r got = 0) \<and> \<not> do_prefetch r
            \<and> stream_open (m_stream r)
            \<and> \<not> (HasRegion (m_randomAccessController r)
                   \<and> \<not> RegionHasAlignments (m_randomAccessController r)) \<longrightarrow>
            GetNextAlignment r alignment = Some (False, alignment, r\<lparr>m_stream := st1\<rparr>))
       \<and> ((got = [] \<or> read_block_length r got = 0) \<and> do_prefetch r \<longrightarrow>
            worker (worker_fetch \<lparr>reader = r, worker = AtLoopHead, worker_count = c,
                                  returned = res\<rparr>) = Finished
            \<and> prefetch_alignments
                 (reader (worker_fetch \<lparr>reader = r, worker = AtLoopHead, worker_count = c,
                                         returned = res\<rparr>))
               = prefetch_alignments r @ [None])
       \<and> (got = [] \<or> read_block_length r got = 0 \<longrightarrow>
            direct_loads (Suc n) r = None # direct_loads n (r\<lparr>m_stream := st1\<rparr>))"
proof -
  have eof: "LoadNextAlignmentInternal r alignment = (False, alignment, r)" if "got = []"
  proof -
    from assms that have "st1 = m_stream r"
      by (auto simp: stream_Read_def Let_def)
    with assms that show ?thesis
      by (simp add: LoadNextAlignmentInternal_def)
  qed
  have zero: "LoadNextAlignmentInternal r alignment = (False, alignment, r\<lparr>m_stream := st1\<rparr>)"
    if "got \<noteq> []" "read_block_length r got = 0"
    using assms that by (simp add: LoadNextAlignmentInternal_def Let_def)
  have off: "stream_offset st1 = stream_offset (m_stream r) + length got" "length got \<le> 4"
    using assms by (auto simp: stream_Read_def Let_def)
  have fails: "LoadNextAlignmentInternal r' al = (False, al, r'\<lparr>m_stream := st1\<rparr>)"
    if "got = [] \<or> read_block_length r got = 0" "m_stream r' = m_stream r"
      "m_isBigEndian r' = m_isBigEndian r" "stack_buffer r' = stack_buffer r"
    for r' al
    using assms that
    by (cases "got = []")
       (auto simp: LoadNextAlignmentInternal_def read_block_length_def Let_def)
  have direct: "GetNextAlignment r alignment = Some (False, alignment, r\<lparr>m_stream := st1\<rparr>)"
    if "got = [] \<or> read_block_length r got = 0" "\<not> do_prefetch r" "stream_open (m_stream r)"
      "\<not> (HasRegion (m_randomAccessController r)
          \<and> \<not> RegionHasAlignments (m_randomAccessController r))"
    using fails [OF that(1), of r alignment] that(2-4)
    by (auto simp: GetNextAlignment_def LoadNextAlignment_def)
  have pushed: "worker (worker_fetch \<lparr>reader = r, worker = AtLoopHead, worker_count = c,
                                  returned = res\<rparr>) = Finished
            \<and> prefetch_alignments
                 (reader (worker_fetch \<lparr>reader = r, worker = AtLoopHead, worker_count = c,
                                         returned = res\<rparr>))
               = prefetch_alignments r @ [None]"
    if "got = [] \<or> read_block_length r got = 0" "do_prefetch r"
    using fails [OF that(1), of "r\<lparr>prefetch_tell_fail :=
                   prefetch_tell_fail r @ [stream_Tell (m_stream r)]\<rparr>" BamAlignment_new] that(2)
    by (simp add: worker_fetch_def Let_def)
  have later: "direct_loads (Suc n) r = None # direct_loads n (r\<lparr>m_stream := st1\<rparr>)"
    if "got = [] \<or> read_block_length r got = 0"
    using fails [OF that, of r BamAlignment_new] by simp
  from eof zero off direct pushed later show ?thesis
    by blast
qed

text \<open>
  The empty stream, and a stream that starts with a zero block length: the decoder, the
  call of \<^verbatim>\<open>GetNextAlignment\<close> without prefetching, the first round of the worker, and
  the calls that follow without prefetching.
\<close>

theorem LoadNextAlignmentInternal_zero_block_length_witness:
  "LoadNextAlignmentInternal (reader_on []) BamAlignment_new
     = (False, BamAlignment_new, reader_on [])
   \<and> LoadNextAlignmentInternal (reader_on [0, 0, 0, 0, 1, 2, 3]) BamAlignment_new
     = (False, BamAlignment_new,
        (reader_on [0, 0, 0, 0, 1, 2, 3])
          \<lparr>m_stream := \<lparr>stream_bytes = [0, 0, 0, 0, 1, 2, 3], stream_offset = 4,
                        stream_open = True\<rparr>\<rparr>)
   \<and> GetNextAlignment (reader_on [0, 0, 0, 0, 1, 2, 3]) BamAlignment_new
     = Some (False, BamAlignment_new,
        (reader_on [0, 0, 0, 0, 1, 2, 3])
          \<lparr>m_stream := \<lparr>stream_bytes = [0, 0, 0, 0, 1, 2, 3], stream_offset = 4,
                        stream_open = True\<rparr>\<rparr>)
   \<and> worker (worker_fetch (prefetch_start (reader_on [0, 0, 0, 0, 1, 2, 3]))) = Finished
   \<and> prefetch_alignments (reader (worker_fetch (prefetch_start (reader_on [0, 0, 0, 0, 1, 2, 3]))))
     = [None]
   \<and> direct_loads (Suc 2) (reader_on [0, 0, 0, 0, 1, 2, 3])
     = None # direct_loads 2
         ((reader_on [0, 0, 0, 0, 1, 2, 3])
            \<lparr>m_stream := \<lparr>stream_bytes = [0, 0, 0, 0, 1, 2, 3], stream_offset = 4,
                          stream_open = True\<rparr>\<rparr>)"
proof -
  have "stream_Read (m_stream (reader_on [])) 4 = ([], m_stream (reader_on []))"
    by (simp add: reader_on_def stream_Read_def)
  from LoadNextAlignmentInternal_zero_block_length [OF this, of BamAlignment_new]
  have a: "LoadNextAlignmentInternal (reader_on []) BamAlignment_new
          = (False, BamAlignment_new, reader_on [])"
    by simp
  let ?r = "reader_on [0, 0, 0, 0, 1, 2, 3]"
  let ?st = "\<lparr>stream_bytes = [0, 0, 0, 0, 1, 2, 3], stream_offset = 4, stream_open = True\<rparr>"
  have rd: "stream_Read (m_stream ?r) 4 = ([0, 0, 0, 0], ?st)"
    by (simp add: reader_on_def stream_Read_def)
  have zero: "read_block_length ?r [0, 0, 0, 0] = 0"
    by (simp add: reader_on_def read_block_length_def UnpackUnsignedInt_def byte_at_def)
  have flags: "\<not> do_prefetch ?r" "stream_open (m_stream ?r)"
    "\<not> HasRegion (m_randomAccessController ?r)"
    by (simp_all add: reader_on_def)
  note t = LoadNextAlignmentInternal_zero_block_length [OF rd, of BamAlignment_new]
  from t zero have b: "LoadNextAlignmentInternal ?r BamAlignment_new
          = (False, BamAlignment_new, ?r\<lparr>m_stream := ?st\<rparr>)"
    by simp
  from t zero flags have c: "GetNextAlignment ?r BamAlignment_new
          = Some (False, BamAlignment_new, ?r\<lparr>m_stream := ?st\<rparr>)"
    by simp
  let ?p = "reader (prefetch_start ?r)"
  have start: "prefetch_start ?r
     = \<lparr>reader = ?p, worker = AtLoopHead, worker_count = 0, returned = []\<rparr>"
    by (simp add: prefetch_start_def)
  have rdp: "stream_Read (m_stream ?p) 4 = ([0, 0, 0, 0], ?st)"
    by (simp add: prefetch_start_def reader_on_def stream_Read_def)
  have zerop: "read_block_length ?p [0, 0, 0, 0] = 0"
    by (simp add: prefetch_start_def reader_on_def read_block_length_def UnpackUnsignedInt_def
                  byte_at_def)
  have pf: "do_prefetch ?p" "prefetch_alignments ?p = []"
    by (simp_all add: prefetch_start_def)
  from LoadNextAlignmentInternal_zero_block_length [OF rdp, of BamAlignment_new 0 "[]"] zerop pf
  have d: "worker (worker_fetch (prefetch_start ?r)) = Finished
         \<and> prefetch_alignments (reader (worker_fetch (prefetch_start ?r))) = [None]"
    by (simp add: start [symmetric])
  note later = LoadNextAlignmentInternal_zero_block_length
                 [OF rd, of BamAlignment_new 0 "[]" 2, THEN conjunct2, THEN conjunct2,
                  THEN conjunct2, THEN conjunct2, rule_format]
  have e: "direct_loads (Suc 2) ?r = None # direct_loads 2 (?r\<lparr>m_stream := ?st\<rparr>)"
    by (rule later) (rule disjI2, rule zero)
  from a b c d e show ?thesis
    by blast
qed

section \<open>Properties of the region filter\<close>





section \<open>Properties of the merge of sorted runs\<close>

text \<open>
  Claim C1. The claim asks that a sort configured by query name merges its runs in
  \<^verbatim>\<open>ByName\<close> order. The queue of the merge compares with \<^verbatim>\<open>ByPosition\<close> whatever the
  configuration. A sort by name without threads, with a buffer of two alignments, of the
  reads c (position 20), a (position 10) and b (position 5) writes the runs a, c and b,
  each sorted by name; the merge puts out b, a, c and \<^verbatim>\<open>Run\<close> returns true, although a
  is in front of b in \<^verbatim>\<open>ByName\<close> order.
\<close>

theorem merge_ignores_name_order:
  "observe (Run (sorter_on SORT_NAME True 2
                   [named_at ''c'' 20, named_at ''a'' 10, named_at ''b'' 5] (\<lambda>f. True)))
     = (Inr True, [''b'', ''a'', ''c''])
   \<and> map Name (merge_runs [[named_at ''a'' 10, named_at ''c'' 20], [named_at ''b'' 5]])
     = [''b'', ''a'', ''c'']
   \<and> ByName (named_at ''a'' 10) (named_at ''b'' 5)"
  by code_simp

lemma multiset_insert_filter_other:
  "\<not> P e \<Longrightarrow> filter P (multiset_insert e q) = filter P q"
  by (induction q) auto

lemma multiset_insert_filter_own:
  "P e \<Longrightarrow> \<forall>x\<in>set q. \<not> P x \<Longrightarrow> filter P (multiset_insert e q) = [e]"
  by (induction q) auto

lemma multiset_insert_sources:
  "set (map source (multiset_insert e q)) = insert (source e) (set (map source q))"
  by (induction q) auto

lemma multiset_insert_distinct:
  "distinct (map source q) \<Longrightarrow> source e \<notin> set (map source q) \<Longrightarrow>
     distinct (map source (multiset_insert e q))"
  by (induction q) (auto simp: multiset_insert_sources [simplified])

lemma fresh_mem: "x \<in> set q \<Longrightarrow> source x \<in> set (map source q)"
  by (induction q) auto

lemma multiset_insert_set: "set (multiset_insert e q) = insert e (set q)"
  by (induction q) auto

lemma merge_loop_per_source:
  assumes "distinct (map source reads)" and "\<forall>e\<in>set reads. source e < length readers"
    and "\<forall>j<length readers. j \<notin> set (map source reads) \<longrightarrow> readers ! j = []"
    and "i < length readers"
  shows "map read (filter (\<lambda>e. source e = i) (merge_loop readers reads)) = pending readers reads i"
  using assms
proof (induction readers reads rule: merge_loop.induct)
  case (1 readers)
  then show ?case by (simp add: pending_def)
next
  case (2 readers el reads)
  let ?s = "source el"
  from "2.prems" have s: "?s < length readers" and fresh: "?s \<notin> set (map source reads)"
    and dist: "distinct (map source reads)"
    and bound: "\<forall>e\<in>set reads. source e < length readers"
    by auto
  show ?case
  proof (cases "readers ! ?s")
    case Nil
    with s have nx: "reader_GetNextAlignment readers ?s = (None, readers)"
      by (simp add: reader_GetNextAlignment_def)
    have inv: "\<forall>j<length readers. j \<notin> set (map source reads) \<longrightarrow> readers ! j = []"
    proof (intro allI impI)
      fix j assume "j < length readers" "j \<notin> set (map source reads)"
      with "2.prems"(3) Nil show "readers ! j = []"
        by (cases "j = ?s") auto
    qed
    have ih: "map read (filter (\<lambda>e. source e = i) (merge_loop readers reads))
                = pending readers reads i"
      by (rule "2.IH"(1) [OF nx [symmetric] refl dist bound inv "2.prems"(4)])
    show ?thesis
    proof (cases "?s = i")
      case True
      have "\<forall>x\<in>set reads. source x \<noteq> i"
      proof
        fix x assume "x \<in> set reads"
        then have "source x \<in> set (map source reads)" by (rule fresh_mem)
        with fresh True show "source x \<noteq> i" by auto
      qed
      then have "filter (\<lambda>e. source e = i) reads = []"
        by (simp add: filter_empty_conv)
      with ih nx True Nil show ?thesis
        by (simp add: pending_def)
    next
      case False
      with ih nx show ?thesis
        by (simp add: pending_def)
    qed
  next
    case (Cons a rest)
    let ?readers1 = "readers[?s := rest]" and ?reads1 = "multiset_insert (el\<lparr>read := a\<rparr>) reads"
    from Cons s have nx: "reader_GetNextAlignment readers ?s = (Some a, ?readers1)"
      by (simp add: reader_GetNextAlignment_def)
    have dist1: "distinct (map source ?reads1)"
      using dist fresh by (intro multiset_insert_distinct) auto
    have bound1: "\<forall>e\<in>set ?reads1. source e < length ?readers1"
    proof
      fix e assume "e \<in> set ?reads1"
      then have "source e \<in> set (map source ?reads1)" by simp
      then have "source e = ?s \<or> source e \<in> set (map source reads)"
        unfolding multiset_insert_sources by simp
      with s bound show "source e < length ?readers1" by auto
    qed
    have inv1: "\<forall>j<length ?readers1. j \<notin> set (map source ?reads1) \<longrightarrow> ?readers1 ! j = []"
    proof (intro allI impI)
      fix j assume j: "j < length ?readers1" "j \<notin> set (map source ?reads1)"
      then have "j \<noteq> ?s" "j \<notin> set (map source reads)"
        unfolding multiset_insert_sources by auto
      with j(1) "2.prems"(3) show "?readers1 ! j = []" by auto
    qed
    have i1: "i < length ?readers1" using "2.prems"(4) by simp
    have ih: "map read (filter (\<lambda>e. source e = i) (merge_loop ?readers1 ?reads1))
                = pending ?readers1 ?reads1 i"
      by (rule "2.IH"(2) [OF nx [symmetric] refl dist1 bound1 inv1 i1])
    show ?thesis
    proof (cases "?s = i")
      case True
      have none: "\<forall>x\<in>set reads. source x \<noteq> i"
      proof
        fix x assume "x \<in> set reads"
        then have "source x \<in> set (map source reads)" by (rule fresh_mem)
        with fresh True show "source x \<noteq> i" by auto
      qed
      then have "filter (\<lambda>e. source e = i) reads = []"
        by (simp add: filter_empty_conv)
      moreover have "filter (\<lambda>e. source e = i) ?reads1 = [el\<lparr>read := a\<rparr>]"
        by (rule multiset_insert_filter_own) (use True none in auto)
      ultimately show ?thesis
        using ih nx True Cons s by (simp add: pending_def)
    next
      case False
      then have "filter (\<lambda>e. source e = i) ?reads1 = filter (\<lambda>e. source e = i) reads"
        by (intro multiset_insert_filter_other) simp
      with ih nx False show ?thesis
        by (simp add: pending_def)
    qed
  qed
qed


lemma seed_reads_inv:
  assumes "seed_reads ctrs readers reads = (readers', reads')"
    and "distinct ctrs"
    and "\<forall>c\<in>set ctrs. c < length readers \<and> c \<notin> set (map source reads)"
    and "distinct (map source reads)"
    and "\<forall>e\<in>set reads. source e < length readers"
  shows "length readers' = length readers
       \<and> distinct (map source reads')
       \<and> (\<forall>e\<in>set reads'. source e < length readers')
       \<and> (\<forall>i<length readers. pending readers' reads' i = pending readers reads i)
       \<and> set (map source reads) \<subseteq> set (map source reads')
       \<and> (\<forall>c\<in>set ctrs. c \<notin> set (map source reads') \<longrightarrow> readers' ! c = [])
       \<and> (\<forall>j<length readers. j \<notin> set ctrs \<longrightarrow> readers' ! j = readers ! j)"
  using assms
proof (induction ctrs arbitrary: readers reads)
  case Nil
  then show ?case by simp
next
  case (Cons c ctrs)
  from Cons.prems have c: "c < length readers" "c \<notin> set (map source reads)" "c \<notin> set ctrs"
    and dctrs: "distinct ctrs"
    and rest: "\<forall>c'\<in>set ctrs. c' < length readers \<and> c' \<notin> set (map source reads)"
    by auto
  show ?case
  proof (cases "readers ! c")
    case Nil
    with c Cons.prems(1) have run: "seed_reads ctrs readers reads = (readers', reads')"
      by (simp add: reader_GetNextAlignment_def)
    note ih = Cons.IH [OF run dctrs rest Cons.prems(4,5)]
    from ih c Nil have "c \<notin> set (map source reads') \<longrightarrow> readers' ! c = []"
      by auto
    with ih show ?thesis by auto
  next
    case (Cons a rest')
    let ?readers1 = "readers[c := rest']"
    let ?reads1 = "multiset_insert \<lparr>read = a, source = c\<rparr> reads"
    from Cons c Cons.prems(1) have run: "seed_reads ctrs ?readers1 ?reads1 = (readers', reads')"
      by (simp add: reader_GetNextAlignment_def)
    have src1: "set (map source ?reads1) = insert c (set (map source reads))"
      unfolding multiset_insert_sources by simp
    have rest1: "\<forall>c'\<in>set ctrs. c' < length ?readers1 \<and> c' \<notin> set (map source ?reads1)"
      unfolding src1 using rest c(3) by auto
    have dist1: "distinct (map source ?reads1)"
      by (rule multiset_insert_distinct) (use Cons.prems(4) c(2) in auto)
    have bound1: "\<forall>e\<in>set ?reads1. source e < length ?readers1"
    proof
      fix e assume "e \<in> set ?reads1"
      then have "source e \<in> set (map source ?reads1)" by (rule fresh_mem)
      with src1 have "source e = c \<or> source e \<in> set (map source reads)" by auto
      with c(1) Cons.prems(5) show "source e < length ?readers1" by auto
    qed
    note ih = Cons.IH [OF run dctrs rest1 dist1 bound1]
    have none: "\<forall>x\<in>set reads. source x \<noteq> c"
    proof
      fix x assume "x \<in> set reads"
      then have "source x \<in> set (map source reads)" by (rule fresh_mem)
      with c(2) show "source x \<noteq> c" by auto
    qed
    have pend: "pending ?readers1 ?reads1 i = pending readers reads i" if "i < length readers" for i
    proof (cases "i = c")
      case True
      have "filter (\<lambda>e. source e = c) ?reads1 = [\<lparr>read = a, source = c\<rparr>]"
        by (rule multiset_insert_filter_own) (use none in auto)
      moreover have "filter (\<lambda>e. source e = c) reads = []"
        using none by (simp add: filter_empty_conv)
      ultimately show ?thesis
        using True Cons c(1) by (simp add: pending_def)
    next
      case False
      then have "filter (\<lambda>e. source e = i) ?reads1 = filter (\<lambda>e. source e = i) reads"
        by (intro multiset_insert_filter_other) simp
      with False show ?thesis
        by (simp add: pending_def)
    qed
    from ih have sub: "set (map source ?reads1) \<subseteq> set (map source reads')"
      by blast
    with src1 have cin: "c \<in> set (map source reads')"
      by auto
    have "\<forall>i<length readers. pending readers' reads' i = pending readers reads i"
      using ih pend by simp
    moreover have "set (map source reads) \<subseteq> set (map source reads')"
      using sub src1 by auto
    moreover have "\<forall>c'\<in>set (c # ctrs). c' \<notin> set (map source reads') \<longrightarrow> readers' ! c' = []"
      using ih cin by auto
    moreover have "\<forall>j<length readers. j \<notin> set (c # ctrs) \<longrightarrow> readers' ! j = readers ! j"
      using ih by auto
    moreover have "length readers' = length readers"
      using ih by simp
    moreover have "distinct (map source reads')"
      using ih by blast
    moreover have "\<forall>e\<in>set reads'. source e < length readers'"
      using ih by blast
    ultimately show ?thesis
      by blast
  qed
qed

lemma merge_elements_per_source:
  assumes "i < length runs"
  shows "map read (filter (\<lambda>e. source e = i) (merge_elements runs)) = runs ! i"
proof -
  obtain readers reads where seed: "seed_reads [0 ..< length runs] runs [] = (readers, reads)"
    by fastforce
  have p: "distinct [0 ..< length runs]"
    "\<forall>c\<in>set [0 ..< length runs].
       c < length runs \<and> c \<notin> set (map source ([] :: SortedMergeElement list))"
    "distinct (map source ([] :: SortedMergeElement list))"
    "\<forall>e\<in>set ([] :: SortedMergeElement list). source e < length runs"
    by simp_all
  note inv = seed_reads_inv [OF seed p]
  have "map read (filter (\<lambda>e. source e = i) (merge_loop readers reads)) = pending readers reads i"
    by (rule merge_loop_per_source) (use inv assms in auto)
  also have "\<dots> = runs ! i"
    using inv assms by (simp add: pending_def)
  finally show ?thesis
    using seed by (simp add: merge_elements_def)
qed

text \<open>
  Claim C4, as stated: ties between the heads of different readers are broken by the index
  of the source, so that records with equal keys leave the merge in the order of the input.
  The runs x (position 1), y (position 5) and z (position 5) show that they do not: y and
  z have equal keys, y is in the first run and z in the second, and z is put out first.
\<close>

theorem merge_breaks_ties_by_arrival_counterexample:
  "map Name (merge_runs [[named_at ''x'' 1, named_at ''y'' 5], [named_at ''z'' 5]])
     = [''x'', ''z'', ''y'']
   \<and> \<not> ByPosition (named_at ''y'' 5) (named_at ''z'' 5)
   \<and> \<not> ByPosition (named_at ''z'' 5) (named_at ''y'' 5)"
  by code_simp

subsection \<open>The order of records with equal keys\<close>

text \<open>
  The queue is ordered by key at all times, and among equal keys by the time of entry: an
  insertion puts the new element behind every queued element that is not greater. The
  rank of a source stands for the time at which its queued element was inserted.
\<close>

lemma less_asym: "SortedMergeElement_less a b \<Longrightarrow> \<not> SortedMergeElement_less b a"
  by (auto simp: SortedMergeElement_less_def ByPosition_def)

lemma less_le_trans:
  "SortedMergeElement_less a b \<Longrightarrow> \<not> SortedMergeElement_less c b \<Longrightarrow> SortedMergeElement_less a c"
  by (auto simp: SortedMergeElement_less_def ByPosition_def)

lemma previous_from_Cons:
  "previous_from s (e # out) (Suc n)
     = (case previous_from s out n of
          Some a \<Rightarrow> Some (Suc a)
        | None \<Rightarrow> if source e = s then Some 0 else None)"
  by (induction n) simp_all

lemma previous_from_None:
  "previous_from s out n = None \<longleftrightarrow> (\<forall>a<n. source (out ! a) \<noteq> s)"
  by (induction n) (auto simp: less_Suc_eq)

lemma entered_Cons:
  "entered (e # out) (Suc n)
     = (case entered out n of
          Some a \<Rightarrow> Some (Suc a)
        | None \<Rightarrow> if source e = source (out ! n) then Some 0 else None)"
  by (simp add: entered_def previous_from_Cons del: previous_from.simps)

lemma entered_0: "entered out 0 = None"
  by (simp add: entered_def)

lemma multiset_insert_ranked:
  assumes "sorted_wrt (queue_order rank) q"
    and "\<forall>x\<in>set q. rank (source x) < M \<and> source x \<noteq> source e"
  shows "sorted_wrt (queue_order (rank(source e := M))) (multiset_insert e q)"
proof -
  define rk where "rk = rank(source e := M)"
  have rk: "rk (source e) = M" "\<And>x. source x \<noteq> source e \<Longrightarrow> rk (source x) = rank (source x)"
    by (simp_all add: rk_def)
  have "sorted_wrt (queue_order rk) (multiset_insert e q)"
    using assms
  proof (induction q)
    case Nil
    then show ?case by simp
  next
    case (Cons x q)
    from Cons.prems have x: "rank (source x) < M" "source x \<noteq> source e"
      and q: "\<forall>y\<in>set q. rank (source y) < M \<and> source y \<noteq> source e"
      and xq: "\<forall>y\<in>set q. queue_order rank x y" and sq: "sorted_wrt (queue_order rank) q"
      by simp_all
    have xq': "\<forall>y\<in>set q. queue_order rk x y"
      using xq x q by (auto simp: queue_order_def rk)
    show ?case
    proof (cases "SortedMergeElement_less e x")
      case True
      have eq: "\<forall>y\<in>set q. SortedMergeElement_less e y"
      proof
        fix y assume "y \<in> set q"
        with xq have "\<not> SortedMergeElement_less y x"
          by (auto simp: queue_order_def dest: less_asym)
        with True show "SortedMergeElement_less e y"
          by (rule less_le_trans)
      qed
      have "sorted_wrt (queue_order rk) q"
      proof (rule sorted_wrt_mono_rel [OF _ sq])
        fix a b assume "a \<in> set q" "b \<in> set q" "queue_order rank a b"
        with q show "queue_order rk a b" by (auto simp: queue_order_def rk)
      qed
      moreover have "\<forall>y\<in>set q. queue_order rk e y" "queue_order rk e x"
        using eq True by (simp_all add: queue_order_def)
      ultimately show ?thesis
        using True xq' by simp
    next
      case False
      have "queue_order rk x e"
        using False x by (simp add: queue_order_def rk)
      moreover have "sorted_wrt (queue_order rk) (multiset_insert e q)"
        by (rule Cons.IH) (use sq q in auto)
      ultimately show ?thesis
        using False xq' by (simp add: multiset_insert_set)
    qed
  qed
  then show ?thesis
    by (simp only: rk_def)
qed

lemma entry_step:
  assumes i': "\<forall>p<length out'. entered out' p = None \<longrightarrow> out' ! p \<in> set Q"
    and ii': "\<forall>p p'. p < p' \<and> p' < length out'
                \<and> \<not> SortedMergeElement_less (out' ! p) (out' ! p')
                \<and> \<not> SortedMergeElement_less (out' ! p') (out' ! p) \<longrightarrow>
              (entered out' p = None \<and> entered out' p' = None \<longrightarrow>
                 rank' (source (out' ! p)) < rank' (source (out' ! p')))
              \<and> (entered out' p' = None \<longrightarrow> entered out' p = None)
              \<and> (\<forall>a b. entered out' p = Some a \<and> entered out' p' = Some b \<longrightarrow> a < b)"
    and H1: "\<forall>z\<in>set Q. source z \<noteq> source el \<longrightarrow>
               z \<in> set q' \<and> rank' (source z) = rank (source z)"
    and H2: "\<forall>z\<in>set Q. \<forall>w\<in>set Q. source z = source el \<and> source w \<noteq> source el \<longrightarrow>
               rank' (source w) < rank' (source z)"
    and H3: "\<forall>y\<in>set q'. queue_order rank el y"
  shows "(\<forall>p<length (el # out'). entered (el # out') p = None \<longrightarrow>
            (el # out') ! p \<in> set (el # q'))
       \<and> (\<forall>p p'. p < p' \<and> p' < length (el # out')
                \<and> \<not> SortedMergeElement_less ((el # out') ! p) ((el # out') ! p')
                \<and> \<not> SortedMergeElement_less ((el # out') ! p') ((el # out') ! p) \<longrightarrow>
              (entered (el # out') p = None \<and> entered (el # out') p' = None \<longrightarrow>
                 rank (source ((el # out') ! p)) < rank (source ((el # out') ! p')))
              \<and> (entered (el # out') p' = None \<longrightarrow> entered (el # out') p = None)
              \<and> (\<forall>a b. entered (el # out') p = Some a \<and> entered (el # out') p' = Some b
                         \<longrightarrow> a < b))"
proof (rule conjI)
  show "\<forall>p<length (el # out'). entered (el # out') p = None \<longrightarrow>
            (el # out') ! p \<in> set (el # q')"
  proof (intro allI impI)
    fix p assume p: "p < length (el # out')" "entered (el # out') p = None"
    show "(el # out') ! p \<in> set (el # q')"
    proof (cases p)
      case 0
      then show ?thesis by simp
    next
      case (Suc n)
      with p have n: "n < length out'" "entered out' n = None" "source el \<noteq> source (out' ! n)"
        by (auto simp: entered_Cons split: option.splits if_splits)
      with i' have "out' ! n \<in> set Q" by simp
      with H1 n(3) have "out' ! n \<in> set q'" by auto
      with Suc show ?thesis by simp
    qed
  qed
  show "\<forall>p p'. p < p' \<and> p' < length (el # out')
                \<and> \<not> SortedMergeElement_less ((el # out') ! p) ((el # out') ! p')
                \<and> \<not> SortedMergeElement_less ((el # out') ! p') ((el # out') ! p) \<longrightarrow>
              (entered (el # out') p = None \<and> entered (el # out') p' = None \<longrightarrow>
                 rank (source ((el # out') ! p)) < rank (source ((el # out') ! p')))
              \<and> (entered (el # out') p' = None \<longrightarrow> entered (el # out') p = None)
              \<and> (\<forall>a b. entered (el # out') p = Some a \<and> entered (el # out') p' = Some b
                         \<longrightarrow> a < b)"
  proof (intro allI, rule impI)
    fix p p'
    assume a: "p < p' \<and> p' < length (el # out')
                \<and> \<not> SortedMergeElement_less ((el # out') ! p) ((el # out') ! p')
                \<and> \<not> SortedMergeElement_less ((el # out') ! p') ((el # out') ! p)"
    then obtain n where p': "p' = Suc n" and n: "n < length out'"
      by (cases p') auto
    let ?y = "out' ! n"
    have en: "entered (el # out') p'
                = (case entered out' n of Some a \<Rightarrow> Some (Suc a)
                   | None \<Rightarrow> if source el = source ?y then Some 0 else None)"
      unfolding p' by (rule entered_Cons)
    have seeded: "entered out' n = None \<and> source el \<noteq> source ?y \<and> ?y \<in> set Q \<and> ?y \<in> set q'
                    \<and> rank' (source ?y) = rank (source ?y)"
      if "entered (el # out') p' = None"
    proof -
      from that en have "entered out' n = None" "source el \<noteq> source ?y"
        by (auto split: option.splits if_splits)
      with i' n H1 show ?thesis by auto
    qed
    show "(entered (el # out') p = None \<and> entered (el # out') p' = None \<longrightarrow>
                 rank (source ((el # out') ! p)) < rank (source ((el # out') ! p')))
              \<and> (entered (el # out') p' = None \<longrightarrow> entered (el # out') p = None)
              \<and> (\<forall>a b. entered (el # out') p = Some a \<and> entered (el # out') p' = Some b
                         \<longrightarrow> a < b)"
    proof (cases p)
      case 0
      have e0: "entered (el # out') p = None"
        unfolding 0 by (rule entered_0)
      have "rank (source el) < rank (source ?y)" if "entered (el # out') p' = None"
      proof -
        from seeded [OF that] H3 have "queue_order rank el ?y" by simp
        with a 0 p' show ?thesis by (simp add: queue_order_def)
      qed
      with e0 0 p' show ?thesis by simp
    next
      case (Suc m)
      with a p' have m: "m < n" and eqk: "\<not> SortedMergeElement_less (out' ! m) ?y"
        "\<not> SortedMergeElement_less ?y (out' ! m)"
        by simp_all
      let ?x = "out' ! m"
      have em: "entered (el # out') p
                = (case entered out' m of Some a \<Rightarrow> Some (Suc a)
                   | None \<Rightarrow> if source el = source ?x then Some 0 else None)"
        unfolding Suc by (rule entered_Cons)
      from ii' m n eqk have A: "entered out' m = None \<and> entered out' n = None \<longrightarrow>
                 rank' (source ?x) < rank' (source ?y)"
        and B: "entered out' n = None \<longrightarrow> entered out' m = None"
        and C: "\<forall>a b. entered out' m = Some a \<and> entered out' n = Some b \<longrightarrow> a < b"
        by blast+
      have second: "entered (el # out') p = None" if s: "entered (el # out') p' = None"
      proof -
        note y = seeded [OF s]
        with B have xm: "entered out' m = None" by simp
        with i' m n have xQ: "?x \<in> set Q" by simp
        have "source ?x \<noteq> source el"
        proof
          assume "source ?x = source el"
          with H2 xQ y have "rank' (source ?y) < rank' (source ?x)" by metis
          with A xm y show False by simp
        qed
        with xm em show ?thesis by simp
      qed
      have first: "rank (source ?x) < rank (source ?y)"
        if s: "entered (el # out') p = None" "entered (el # out') p' = None"
      proof -
        note y = seeded [OF s(2)]
        from s(1) em have x: "entered out' m = None" "source el \<noteq> source ?x"
          by (auto split: option.splits if_splits)
        with i' m n H1 have "rank' (source ?x) = rank (source ?x)" by auto
        with A x y show ?thesis by simp
      qed
      have third: "a < b" if s: "entered (el # out') p = Some a" "entered (el # out') p' = Some b"
        for a b
      proof (cases "entered out' n")
        case None
        with B have xm: "entered out' m = None" by simp
        from None s(2) en have sy: "source el = source ?y"
          by (auto split: if_splits)
        from xm s(1) em have sx: "source el = source ?x"
          by (auto split: if_splits)
        from None have "\<forall>a<n. source (out' ! a) \<noteq> source ?y"
          by (simp add: entered_def previous_from_None)
        with m sx sy show ?thesis by auto
      next
        case (Some b0)
        with s(2) en have b: "b = Suc b0" by simp
        show ?thesis
        proof (cases "entered out' m")
          case None
          with s(1) em have "a = 0" by (auto split: if_splits)
          with b show ?thesis by simp
        next
          case (Some a0)
          with s(1) em have "a = Suc a0" by simp
          with C Some \<open>entered out' n = Some b0\<close> b show ?thesis by simp
        qed
      qed
      from first second third Suc p' show ?thesis by simp
    qed
  qed
qed


lemma merge_loop_entry:
  assumes "sorted_wrt (queue_order rank) reads" and "distinct (map source reads)"
  shows "(\<forall>p<length (merge_loop readers reads).
            entered (merge_loop readers reads) p = None \<longrightarrow>
            merge_loop readers reads ! p \<in> set reads)
       \<and> (\<forall>p p'. p < p' \<and> p' < length (merge_loop readers reads)
                \<and> \<not> SortedMergeElement_less (merge_loop readers reads ! p)
                                              (merge_loop readers reads ! p')
                \<and> \<not> SortedMergeElement_less (merge_loop readers reads ! p')
                                              (merge_loop readers reads ! p) \<longrightarrow>
              (entered (merge_loop readers reads) p = None
                 \<and> entered (merge_loop readers reads) p' = None \<longrightarrow>
                 rank (source (merge_loop readers reads ! p))
                   < rank (source (merge_loop readers reads ! p')))
              \<and> (entered (merge_loop readers reads) p' = None \<longrightarrow>
                   entered (merge_loop readers reads) p = None)
              \<and> (\<forall>a b. entered (merge_loop readers reads) p = Some a
                         \<and> entered (merge_loop readers reads) p' = Some b \<longrightarrow> a < b))"
  using assms
proof (induction readers reads arbitrary: rank rule: merge_loop.induct)
  case (1 readers)
  show ?case by simp
next
  case (2 readers el reads)
  from "2.prems" have H3: "\<forall>y\<in>set reads. queue_order rank el y"
    and sorted: "sorted_wrt (queue_order rank) reads"
    and dist: "distinct (map source reads)"
    and fresh: "source el \<notin> set (map source reads)"
    by simp_all
  have other: "source z \<noteq> source el" if "z \<in> set reads" for z
    using fresh_mem [OF that] fresh by auto
  obtain nx readers1 where nx: "reader_GetNextAlignment readers (source el) = (nx, readers1)"
    by fastforce
  show ?case
  proof (cases nx)
    case None
    note ih = "2.IH"(1) [OF nx [unfolded None, symmetric] refl sorted dist]
    have out: "merge_loop readers (el # reads) = el # merge_loop readers1 reads"
      using nx None by simp
    have H1: "\<forall>z\<in>set reads. source z \<noteq> source el \<longrightarrow>
               z \<in> set reads \<and> rank (source z) = rank (source z)"
      by simp
    have H2: "\<forall>z\<in>set reads. \<forall>w\<in>set reads. source z = source el \<and> source w \<noteq> source el \<longrightarrow>
               rank (source w) < rank (source z)"
      using other by blast
    show ?thesis
      unfolding out
      by (rule entry_step [OF ih [THEN conjunct1] ih [THEN conjunct2] H1 H2 H3])
  next
    case (Some a)
    let ?r = "el\<lparr>read := a\<rparr>"
    let ?Q = "multiset_insert ?r reads"
    define M where "M = Suc (sum_list (map (rank \<circ> source) reads))"
    have M: "rank (source x) < M" if "x \<in> set reads" for x
    proof -
      from that have "(rank \<circ> source) x \<in> set (map (rank \<circ> source) reads)"
        unfolding set_map by (rule imageI)
      then have "(rank \<circ> source) x \<le> sum_list (map (rank \<circ> source) reads)"
        by (rule member_le_sum_list) simp_all
      then show ?thesis by (simp add: M_def)
    qed
    define rk where "rk = rank(source el := M)"
    have rk: "rk (source el) = M" "\<And>s. s \<noteq> source el \<Longrightarrow> rk s = rank s"
      by (simp_all add: rk_def)
    have "sorted_wrt (queue_order (rank(source ?r := M))) ?Q"
      by (rule multiset_insert_ranked [OF sorted]) (use M other in auto)
    then have sortedQ: "sorted_wrt (queue_order rk) ?Q"
      by (simp add: rk_def)
    have distQ: "distinct (map source ?Q)"
      by (rule multiset_insert_distinct) (use dist fresh in auto)
    note ih = "2.IH"(2) [OF nx [unfolded Some, symmetric] refl sortedQ distQ]
    have out: "merge_loop readers (el # reads) = el # merge_loop readers1 ?Q"
      using nx Some by simp
    have H1: "\<forall>z\<in>set ?Q. source z \<noteq> source el \<longrightarrow>
               z \<in> set reads \<and> rk (source z) = rank (source z)"
      by (auto simp: multiset_insert_set rk)
    have H2: "\<forall>z\<in>set ?Q. \<forall>w\<in>set ?Q. source z = source el \<and> source w \<noteq> source el \<longrightarrow>
               rk (source w) < rk (source z)"
      using M by (auto simp: multiset_insert_set rk)
    show ?thesis
      unfolding out
      by (rule entry_step [OF ih [THEN conjunct1] ih [THEN conjunct2] H1 H2 H3])
  qed
qed


lemma seed_reads_ranked:
  assumes "seed_reads ctrs readers reads = (readers', reads')"
    and "sorted_wrt (<) ctrs"
    and "\<forall>c\<in>set ctrs. \<forall>x\<in>set reads. source x < c"
    and "sorted_wrt (queue_order (\<lambda>s. s)) reads"
    and "distinct (map source reads)"
  shows "sorted_wrt (queue_order (\<lambda>s. s)) reads' \<and> distinct (map source reads')"
  using assms
proof (induction ctrs arbitrary: readers reads)
  case Nil
  then show ?case by simp
next
  case (Cons c ctrs)
  from Cons.prems have ctrs: "sorted_wrt (<) ctrs" and above: "\<forall>c'\<in>set ctrs. c < c'"
    and below: "\<forall>x\<in>set reads. source x < c"
    and rest: "\<forall>c'\<in>set ctrs. \<forall>x\<in>set reads. source x < c'"
    by simp_all
  obtain nx readers1 where nx: "reader_GetNextAlignment readers c = (nx, readers1)"
    by fastforce
  show ?case
  proof (cases nx)
    case None
    with nx Cons.prems(1) have run: "seed_reads ctrs readers1 reads = (readers', reads')"
      by simp
    show ?thesis
      by (rule Cons.IH [OF run ctrs rest Cons.prems(4,5)])
  next
    case (Some a)
    let ?e = "\<lparr>read = a, source = c\<rparr>"
    let ?reads1 = "multiset_insert ?e reads"
    from Some nx Cons.prems(1) have run: "seed_reads ctrs readers1 ?reads1 = (readers', reads')"
      by simp
    have "sorted_wrt (queue_order ((\<lambda>s. s)(source ?e := c))) ?reads1"
      by (rule multiset_insert_ranked [OF Cons.prems(4)]) (use below in auto)
    moreover have "(\<lambda>s. s)(source ?e := c) = (\<lambda>s :: nat. s)"
      by auto
    ultimately have sorted1: "sorted_wrt (queue_order (\<lambda>s. s)) ?reads1"
      by (simp only:)
    have fresh: "source ?e \<notin> set (map source reads)"
    proof
      assume "source ?e \<in> set (map source reads)"
      then obtain x where "x \<in> set reads" "source x = c" by auto
      with below show False by auto
    qed
    have dist1: "distinct (map source ?reads1)"
      by (rule multiset_insert_distinct [OF Cons.prems(5) fresh])
    have rest1: "\<forall>c'\<in>set ctrs. \<forall>x\<in>set ?reads1. source x < c'"
      using rest above by (auto simp: multiset_insert_set)
    show ?thesis
      by (rule Cons.IH [OF run ctrs rest1 sorted1 dist1])
  qed
qed

lemma merge_elements_entry:
  assumes "p < p'" and "p' < length (merge_elements runs)"
    and "\<not> SortedMergeElement_less (merge_elements runs ! p) (merge_elements runs ! p')"
    and "\<not> SortedMergeElement_less (merge_elements runs ! p') (merge_elements runs ! p)"
  shows "entered_before (merge_elements runs) p p'"
proof -
  obtain readers reads where seed: "seed_reads [0 ..< length runs] runs [] = (readers, reads)"
    by fastforce
  have out: "merge_elements runs = merge_loop readers reads"
    using seed by (simp add: merge_elements_def)
  have up: "sorted_wrt (<) [0 ..< length runs]"
    by (simp add: sorted_wrt_upt)
  have e: "\<forall>c\<in>set [0 ..< length runs]. \<forall>x\<in>set ([] :: SortedMergeElement list). source x < c"
    "sorted_wrt (queue_order (\<lambda>s. s)) ([] :: SortedMergeElement list)"
    "distinct (map source ([] :: SortedMergeElement list))"
    by simp_all
  note q = seed_reads_ranked [OF seed up e]
  note m = merge_loop_entry [OF q [THEN conjunct1] q [THEN conjunct2], of readers,
             THEN conjunct2, rule_format, of p p']
  from m assms have
    first: "entered (merge_elements runs) p = None \<and> entered (merge_elements runs) p' = None
      \<longrightarrow> source (merge_elements runs ! p) < source (merge_elements runs ! p')"
    and second: "entered (merge_elements runs) p' = None \<longrightarrow> entered (merge_elements runs) p = None"
    and third: "\<forall>a b. entered (merge_elements runs) p = Some a
                       \<and> entered (merge_elements runs) p' = Some b \<longrightarrow> a < b"
    unfolding out by blast+
  show ?thesis
  proof (cases "entered (merge_elements runs) p")
    case None
    with first show ?thesis
      by (cases "entered (merge_elements runs) p'") (simp_all add: entered_before_def)
  next
    case (Some a)
    with second third show ?thesis
      by (cases "entered (merge_elements runs) p'") (simp_all add: entered_before_def)
  qed
qed

text \<open>
  Claim C4, amended. The merge keeps the order of the records of each run: the elements
  taken off the queue that came from reader \<open>i\<close> are the records of run \<open>i\<close>, in their
  order. Of two records in the output that compare equal under the comparator of the
  queue, the one that entered the queue first is put out first: a record inserted by the
  first loop in front of a record inserted in a later round, two records inserted by the
  first loop in the order of the indices of their readers, and two records inserted in
  later rounds in the order of these rounds.
\<close>

theorem merge_emits_equal_keys_in_order_of_entry:
  "(\<forall>i<length runs.
      map read (filter (\<lambda>e. source e = i) (merge_elements runs)) = runs ! i)
   \<and> (\<forall>p p'. p < p' \<and> p' < length (merge_elements runs)
         \<and> \<not> SortedMergeElement_less (merge_elements runs ! p) (merge_elements runs ! p')
         \<and> \<not> SortedMergeElement_less (merge_elements runs ! p') (merge_elements runs ! p)
       \<longrightarrow> entered_before (merge_elements runs) p p')"
proof (rule conjI)
  show "\<forall>i<length runs.
      map read (filter (\<lambda>e. source e = i) (merge_elements runs)) = runs ! i"
    by (intro allI impI) (rule merge_elements_per_source)
  show "\<forall>p p'. p < p' \<and> p' < length (merge_elements runs)
         \<and> \<not> SortedMergeElement_less (merge_elements runs ! p) (merge_elements runs ! p')
         \<and> \<not> SortedMergeElement_less (merge_elements runs ! p') (merge_elements runs ! p)
       \<longrightarrow> entered_before (merge_elements runs) p p'"
  proof (intro allI, rule impI)
    fix p p'
    assume "p < p' \<and> p' < length (merge_elements runs)
         \<and> \<not> SortedMergeElement_less (merge_elements runs ! p) (merge_elements runs ! p')
         \<and> \<not> SortedMergeElement_less (merge_elements runs ! p') (merge_elements runs ! p)"
    then show "entered_before (merge_elements runs) p p'"
      by (intro merge_elements_entry) simp_all
  qed
qed

text \<open>
  The runs of the counterexample: x, z and y leave the merge in this order; z and y have
  equal keys, z was inserted by the first loop and y in the round that put out x. In the
  runs a and b, both at position 5, the two records are inserted by the first loop and
  leave in the order of their readers.
\<close>

theorem merge_emits_equal_keys_in_order_of_entry_witness:
  "map Name (map read (filter (\<lambda>e. source e = 0)
      (merge_elements [[named_at ''x'' 1, named_at ''y'' 5], [named_at ''z'' 5]])))
     = [''x'', ''y'']
   \<and> map Name (map read (filter (\<lambda>e. source e = 1)
      (merge_elements [[named_at ''x'' 1, named_at ''y'' 5], [named_at ''z'' 5]])))
     = [''z'']
   \<and> map (Name \<circ> read) (merge_elements [[named_at ''x'' 1, named_at ''y'' 5], [named_at ''z'' 5]])
     = [''x'', ''z'', ''y'']
   \<and> entered (merge_elements [[named_at ''x'' 1, named_at ''y'' 5], [named_at ''z'' 5]]) 1 = None
   \<and> entered (merge_elements [[named_at ''x'' 1, named_at ''y'' 5], [named_at ''z'' 5]]) 2 = Some 0
   \<and> entered_before (merge_elements [[named_at ''x'' 1, named_at ''y'' 5], [named_at ''z'' 5]]) 1 2
   \<and> map (Name \<circ> read) (merge_elements [[named_at ''a'' 5], [named_at ''b'' 5]]) = [''a'', ''b'']
   \<and> entered_before (merge_elements [[named_at ''a'' 5], [named_at ''b'' 5]]) 0 1"
proof -
  let ?runs = "[[named_at ''x'' 1, named_at ''y'' 5], [named_at ''z'' 5]]"
  let ?tie = "[[named_at ''a'' 5], [named_at ''b'' 5]]"
  note t = merge_emits_equal_keys_in_order_of_entry [of ?runs]
  note u = merge_emits_equal_keys_in_order_of_entry [of ?tie]
  from t have a: "map read (filter (\<lambda>e. source e = 0) (merge_elements ?runs)) = ?runs ! 0"
    by simp
  from t have b: "map read (filter (\<lambda>e. source e = 1) (merge_elements ?runs)) = ?runs ! 1"
    by simp
  have h: "(1 :: nat) < 2 \<and> 2 < length (merge_elements ?runs)
         \<and> \<not> SortedMergeElement_less (merge_elements ?runs ! 1) (merge_elements ?runs ! 2)
         \<and> \<not> SortedMergeElement_less (merge_elements ?runs ! 2) (merge_elements ?runs ! 1)"
    by code_simp
  from t h have c: "entered_before (merge_elements ?runs) 1 2"
    by blast
  have k: "(0 :: nat) < 1 \<and> 1 < length (merge_elements ?tie)
         \<and> \<not> SortedMergeElement_less (merge_elements ?tie ! 0) (merge_elements ?tie ! 1)
         \<and> \<not> SortedMergeElement_less (merge_elements ?tie ! 1) (merge_elements ?tie ! 0)"
    by code_simp
  from u k have d: "entered_before (merge_elements ?tie) 0 1"
    by blast
  have e: "map (Name \<circ> read) (merge_elements ?runs) = [''x'', ''z'', ''y'']"
    "entered (merge_elements ?runs) 1 = None"
    "entered (merge_elements ?runs) 2 = Some 0"
    "map (Name \<circ> read) (merge_elements ?tie) = [''a'', ''b'']"
    by code_simp+
  show ?thesis
    unfolding a b using c d e by (simp add: named_at_def)
qed

subsection \<open>The merge by position\<close>

lemma position_le_trans: "position_le a b \<Longrightarrow> position_le b c \<Longrightarrow> position_le a c"
  by (auto simp: position_le_def ByPosition_def)

lemma ByPosition_position_le: "ByPosition a b \<Longrightarrow> position_le a b"
  by (auto simp: position_le_def ByPosition_def)

lemma multiset_insert_mset: "mset (multiset_insert e q) = add_mset e (mset q)"
  by (induction q) auto

lemma multiset_insert_sorted:
  assumes "sorted_wrt (\<lambda>e f. position_le (read e) (read f)) q"
  shows "sorted_wrt (\<lambda>e f. position_le (read e) (read f)) (multiset_insert e q)"
  using assms
proof (induction q)
  case Nil
  then show ?case by simp
next
  case (Cons x q)
  show ?case
  proof (cases "SortedMergeElement_less e x")
    case True
    then have ex: "position_le (read e) (read x)"
      by (simp add: SortedMergeElement_less_def ByPosition_position_le)
    have "\<forall>y\<in>set q. position_le (read e) (read y)"
      using Cons.prems ex by (auto intro: position_le_trans)
    with True ex Cons.prems show ?thesis by simp
  next
    case False
    then have "position_le (read x) (read e)"
      by (simp add: SortedMergeElement_less_def position_le_def)
    with False Cons show ?thesis
      by (auto simp: multiset_insert_set)
  qed
qed

lemma mset_concat_update:
  "i < length rs \<Longrightarrow> rs ! i = a # rest \<Longrightarrow>
     mset (concat rs) = add_mset a (mset (concat (rs[i := rest])))"
proof (induction rs arbitrary: i)
  case Nil
  then show ?case by simp
next
  case (Cons r rs)
  then show ?case by (cases i) auto
qed

lemma in_concat_nth: "x \<in> set (concat rs) \<Longrightarrow> \<exists>j<length rs. x \<in> set (rs ! j)"
  by (auto simp: in_set_conv_nth) blast


lemma merge_loop_sorted:
  assumes "distinct (map source reads)" and "\<forall>e\<in>set reads. source e < length readers"
    and "\<forall>j<length readers. j \<notin> set (map source reads) \<longrightarrow> readers ! j = []"
    and "sorted_wrt (\<lambda>e f. position_le (read e) (read f)) reads"
    and "\<forall>j<length readers. sorted_wrt position_le (readers ! j)"
    and "\<forall>e\<in>set reads. \<forall>x\<in>set (readers ! source e). position_le (read e) x"
  shows "mset (map read (merge_loop readers reads)) = mset (map read reads) + mset (concat readers)
       \<and> sorted_wrt position_le (map read (merge_loop readers reads))"
  using assms
proof (induction readers reads rule: merge_loop.induct)
  case (1 readers)
  have "readers ! j = []" if "j < length readers" for j
    using "1.prems"(3) that by simp
  then have "concat readers = []"
    by (auto simp: in_set_conv_nth)
  then show ?case by simp
next
  case (2 readers el reads)
  let ?s = "source el"
  from "2.prems" have s: "?s < length readers" and fresh: "?s \<notin> set (map source reads)"
    and dist: "distinct (map source reads)"
    and bound: "\<forall>e\<in>set reads. source e < length readers"
    and sq: "sorted_wrt (\<lambda>e f. position_le (read e) (read f)) reads"
    and first: "\<forall>f\<in>set reads. position_le (read el) (read f)"
    and own: "\<forall>x\<in>set (readers ! ?s). position_le (read el) x"
    and ge: "\<forall>e\<in>set reads. \<forall>x\<in>set (readers ! source e). position_le (read e) x"
    by auto
  have others: "position_le (read el) x"
    if x: "x \<in> set (readers ! j)" and j: "j < length readers" for x j
  proof (cases "j = ?s")
    case True
    with x own show ?thesis by simp
  next
    case False
    with x j "2.prems"(3) have "j \<in> set (map source reads)"
      by force
    then obtain f where f: "f \<in> set reads" "source f = j"
      by auto
    with ge x have "position_le (read f) x"
      by auto
    with first f(1) show ?thesis
      by (blast intro: position_le_trans)
  qed
  show ?case
  proof (cases "readers ! ?s")
    case Nil
    with s have nx: "reader_GetNextAlignment readers ?s = (None, readers)"
      by (simp add: reader_GetNextAlignment_def)
    have inv: "\<forall>j<length readers. j \<notin> set (map source reads) \<longrightarrow> readers ! j = []"
    proof (intro allI impI)
      fix j assume "j < length readers" "j \<notin> set (map source reads)"
      with "2.prems"(3) Nil show "readers ! j = []"
        by (cases "j = ?s") auto
    qed
    note ih = "2.IH"(1) [OF nx [symmetric] refl dist bound inv sq "2.prems"(5) ge]
    have "position_le (read el) x" if "x \<in> set (map read (merge_loop readers reads))" for x
    proof -
      from that ih have "x \<in># mset (map read reads) + mset (concat readers)"
        by (metis set_mset_mset)
      then have "x \<in> set (map read reads) \<or> x \<in> set (concat readers)"
        by auto
      then show ?thesis
      proof
        assume "x \<in> set (map read reads)"
        with first show ?thesis by auto
      next
        assume "x \<in> set (concat readers)"
        then obtain j where "j < length readers" "x \<in> set (readers ! j)"
          by (blast dest: in_concat_nth)
        then show ?thesis by (rule others [rotated])
      qed
    qed
    with ih nx show ?thesis
      by simp
  next
    case (Cons a rest)
    let ?el = "el\<lparr>read := a\<rparr>"
    let ?readers1 = "readers[?s := rest]" and ?reads1 = "multiset_insert ?el reads"
    from Cons s have nx: "reader_GetNextAlignment readers ?s = (Some a, ?readers1)"
      by (simp add: reader_GetNextAlignment_def)
    have dist1: "distinct (map source ?reads1)"
      using dist fresh by (intro multiset_insert_distinct) auto
    have src1: "set (map source ?reads1) = insert ?s (set (map source reads))"
      unfolding multiset_insert_sources by simp
    have bound1: "\<forall>e\<in>set ?reads1. source e < length ?readers1"
      using s bound by (auto simp: multiset_insert_set)
    have inv1: "\<forall>j<length ?readers1. j \<notin> set (map source ?reads1) \<longrightarrow> ?readers1 ! j = []"
    proof (intro allI impI)
      fix j assume j: "j < length ?readers1" "j \<notin> set (map source ?reads1)"
      then have "j \<noteq> ?s" "j \<notin> set (map source reads)"
        unfolding src1 by auto
      with j(1) "2.prems"(3) show "?readers1 ! j = []" by auto
    qed
    have sq1: "sorted_wrt (\<lambda>e f. position_le (read e) (read f)) ?reads1"
      by (rule multiset_insert_sorted) (rule sq)
    from "2.prems"(5) s Cons have srt: "sorted_wrt position_le (a # rest)"
      by metis
    have sr1: "\<forall>j<length ?readers1. sorted_wrt position_le (?readers1 ! j)"
    proof (intro allI impI)
      fix j assume "j < length ?readers1"
      with "2.prems"(5) srt show "sorted_wrt position_le (?readers1 ! j)"
        by (cases "j = ?s") auto
    qed
    have ge1: "\<forall>e\<in>set ?reads1. \<forall>x\<in>set (?readers1 ! source e). position_le (read e) x"
    proof
      fix e assume "e \<in> set ?reads1"
      then have "e = ?el \<or> e \<in> set reads"
        by (simp add: multiset_insert_set)
      then show "\<forall>x\<in>set (?readers1 ! source e). position_le (read e) x"
      proof
        assume "e = ?el"
        with srt s show ?thesis by auto
      next
        assume e: "e \<in> set reads"
        then have "source e \<in> set (map source reads)" by (rule fresh_mem)
        with fresh have "source e \<noteq> ?s" by auto
        with ge e show ?thesis by auto
      qed
    qed
    note ih = "2.IH"(2) [OF nx [symmetric] refl dist1 bound1 inv1 sq1 sr1 ge1]
    have split: "mset (concat readers) = add_mset a (mset (concat ?readers1))"
      by (rule mset_concat_update [OF s Cons])
    have a_ok: "position_le (read el) a"
      using own Cons by simp
    have "position_le (read el) x" if "x \<in> set (map read (merge_loop ?readers1 ?reads1))" for x
    proof -
      from that ih have "x \<in># mset (map read ?reads1) + mset (concat ?readers1)"
        by (metis set_mset_mset)
      then have "x = a \<or> x \<in> set (map read reads) \<or> x \<in> set (concat ?readers1)"
        by (auto simp: multiset_insert_set)
      then show ?thesis
      proof (elim disjE)
        assume "x = a"
        with a_ok show ?thesis by simp
      next
        assume "x \<in> set (map read reads)"
        with first show ?thesis by auto
      next
        assume "x \<in> set (concat ?readers1)"
        then obtain j where j: "j < length ?readers1" "x \<in> set (?readers1 ! j)"
          by (blast dest: in_concat_nth)
        show ?thesis
        proof (cases "j = ?s")
          case True
          with j s Cons have "x \<in> set (readers ! ?s)" by auto
          with own show ?thesis by simp
        next
          case False
          with j have "x \<in> set (readers ! j)" "j < length readers" by auto
          then show ?thesis by (rule others)
        qed
      qed
    qed
    moreover have "mset (map read (merge_loop ?readers1 ?reads1))
        = add_mset a (mset (map read reads)) + mset (concat ?readers1)"
      using ih by (simp add: multiset_insert_mset)
    ultimately show ?thesis
      using ih nx split by simp
  qed
qed


lemma seed_reads_sorted:
  assumes "seed_reads ctrs readers reads = (readers', reads')"
    and "distinct ctrs"
    and "\<forall>c\<in>set ctrs. c < length readers \<and> c \<notin> set (map source reads)"
    and "sorted_wrt (\<lambda>e f. position_le (read e) (read f)) reads"
    and "\<forall>j<length readers. sorted_wrt position_le (readers ! j)"
    and "\<forall>e\<in>set reads. \<forall>x\<in>set (readers ! source e). position_le (read e) x"
  shows "sorted_wrt (\<lambda>e f. position_le (read e) (read f)) reads'
       \<and> (\<forall>j<length readers'. sorted_wrt position_le (readers' ! j))
       \<and> (\<forall>e\<in>set reads'. \<forall>x\<in>set (readers' ! source e). position_le (read e) x)
       \<and> mset (map read reads') + mset (concat readers')
           = mset (map read reads) + mset (concat readers)"
  using assms
proof (induction ctrs arbitrary: readers reads)
  case Nil
  then show ?case by simp
next
  case (Cons c ctrs)
  from Cons.prems have c: "c < length readers" "c \<notin> set (map source reads)" "c \<notin> set ctrs"
    and dctrs: "distinct ctrs"
    and rest: "\<forall>c'\<in>set ctrs. c' < length readers \<and> c' \<notin> set (map source reads)"
    by auto
  show ?case
  proof (cases "readers ! c")
    case Nil
    with c Cons.prems(1) have run: "seed_reads ctrs readers reads = (readers', reads')"
      by (simp add: reader_GetNextAlignment_def)
    show ?thesis
      by (rule Cons.IH [OF run dctrs rest Cons.prems(4,5,6)])
  next
    case (Cons a rest')
    let ?e = "\<lparr>read = a, source = c\<rparr>"
    let ?readers1 = "readers[c := rest']"
    let ?reads1 = "multiset_insert ?e reads"
    from Cons c Cons.prems(1) have run: "seed_reads ctrs ?readers1 ?reads1 = (readers', reads')"
      by (simp add: reader_GetNextAlignment_def)
    have src1: "set (map source ?reads1) = insert c (set (map source reads))"
      unfolding multiset_insert_sources by simp
    have rest1: "\<forall>c'\<in>set ctrs. c' < length ?readers1 \<and> c' \<notin> set (map source ?reads1)"
      unfolding src1 using rest c(3) by auto
    have sq1: "sorted_wrt (\<lambda>e f. position_le (read e) (read f)) ?reads1"
      by (rule multiset_insert_sorted) (rule Cons.prems(4))
    from Cons.prems(5) c(1) Cons have srt: "sorted_wrt position_le (a # rest')"
      by metis
    have sr1: "\<forall>j<length ?readers1. sorted_wrt position_le (?readers1 ! j)"
    proof (intro allI impI)
      fix j assume "j < length ?readers1"
      with Cons.prems(5) srt show "sorted_wrt position_le (?readers1 ! j)"
        by (cases "j = c") auto
    qed
    have ge1: "\<forall>e\<in>set ?reads1. \<forall>x\<in>set (?readers1 ! source e). position_le (read e) x"
    proof
      fix e assume "e \<in> set ?reads1"
      then have "e = ?e \<or> e \<in> set reads"
        by (simp add: multiset_insert_set)
      then show "\<forall>x\<in>set (?readers1 ! source e). position_le (read e) x"
      proof
        assume "e = ?e"
        with srt c(1) show ?thesis by auto
      next
        assume e: "e \<in> set reads"
        then have "source e \<in> set (map source reads)" by (rule fresh_mem)
        with c(2) have "source e \<noteq> c" by auto
        with Cons.prems(6) e show ?thesis by auto
      qed
    qed
    note ih = Cons.IH [OF run dctrs rest1 sq1 sr1 ge1]
    have "mset (map read ?reads1) + mset (concat ?readers1)
            = mset (map read reads) + mset (concat readers)"
      using mset_concat_update [OF c(1) Cons] by (simp add: multiset_insert_mset)
    with ih show ?thesis
      by simp
  qed
qed

text \<open>
  Whatever the configured order, the merge is a merge by position: when every run is
  sorted in the order of \<^verbatim>\<open>ByPosition\<close>, as the runs of a sort by position are, the
  output is sorted in that order and holds exactly the records of the runs.
\<close>

lemma merge_runs_sorted_by_position:
  assumes "\<forall>run\<in>set runs. sorted_wrt position_le run"
  shows "sorted_wrt position_le (merge_runs runs) \<and> mset (merge_runs runs) = mset (concat runs)"
proof -
  obtain readers reads where seed: "seed_reads [0 ..< length runs] runs [] = (readers, reads)"
    by fastforce
  have p: "distinct [0 ..< length runs]"
    "\<forall>c\<in>set [0 ..< length runs].
       c < length runs \<and> c \<notin> set (map source ([] :: SortedMergeElement list))"
    "distinct (map source ([] :: SortedMergeElement list))"
    "\<forall>e\<in>set ([] :: SortedMergeElement list). source e < length runs"
    by simp_all
  note inv = seed_reads_inv [OF seed p]
  have q: "sorted_wrt (\<lambda>e f. position_le (read e) (read f)) ([] :: SortedMergeElement list)"
    "\<forall>j<length runs. sorted_wrt position_le (runs ! j)"
    "\<forall>e\<in>set ([] :: SortedMergeElement list). \<forall>x\<in>set (runs ! source e). position_le (read e) x"
    using assms by simp_all
  note srt = seed_reads_sorted [OF seed p(1,2) q]
  have drained: "\<forall>j<length readers. j \<notin> set (map source reads) \<longrightarrow> readers ! j = []"
    using inv by auto
  have "mset (map read (merge_loop readers reads)) = mset (map read reads) + mset (concat readers)
       \<and> sorted_wrt position_le (map read (merge_loop readers reads))"
    by (rule merge_loop_sorted) (use inv srt drained in blast)+
  with srt seed show ?thesis
    by (simp add: merge_runs_def merge_elements_def)
qed

section \<open>Properties of the top-level call of the sorter\<close>

lemma WriteTempFile_retval:
  "sort_retval (snd (WriteTempFile s buffer f)) = sort_retval s
   \<and> merge_retval (snd (WriteTempFile s buffer f)) = merge_retval s"
  by (simp add: WriteTempFile_def)

lemma CreateSortedTempFile_retval:
  "sort_retval (snd (CreateSortedTempFile s buffer)) = sort_retval s
   \<and> merge_retval (snd (CreateSortedTempFile s buffer)) = merge_retval s"
  by (simp add: CreateSortedTempFile_def TempFileWriteJob_runJob_def WriteTempFile_def Let_def)

lemma fill_buffers_retval:
  "sort_retval (fst (fill_buffers s buffer als)) = sort_retval s
   \<and> merge_retval (fst (fill_buffers s buffer als)) = merge_retval s"
  by (induction s buffer als rule: fill_buffers.induct)
     (simp_all add: Let_def CreateSortedTempFile_retval)

lemma GenerateSortedRuns_retval:
  "fst (GenerateSortedRuns s)
   \<and> sort_retval (snd (GenerateSortedRuns s)) = sort_retval s
   \<and> merge_retval (snd (GenerateSortedRuns s)) = merge_retval s"
  by (simp add: GenerateSortedRuns_def Let_def split_beta CreateSortedTempFile_retval
                fill_buffers_retval)

lemma MergeSortedRuns_retval:
  "(case MergeSortedRuns s of
      Exited code s' \<Rightarrow> code = - 1 \<and> sort_retval s' = sort_retval s \<and> merge_retval s' = merge_retval s
    | Returned r s' \<Rightarrow> sort_retval s' = sort_retval s \<and> merge_retval s' = merge_retval s)"
  by (simp add: MergeSortedRuns_def Let_def split: sum.splits)

text \<open>
  Claim C3. The claim asks that \<^verbatim>\<open>Run\<close> returns false when a temp file cannot be written.
  The result of \<^verbatim>\<open>WriteTempFile\<close> is dropped on the way up, and \<^verbatim>\<open>Run\<close> returns the
  conjunction of two members that nothing on this path assigns: whatever happens to the
  temp files, \<^verbatim>\<open>Run\<close> either ends the process with code \<open>- 1\<close> (a reader cannot open
  its temp file) or returns the value the two members had at the start.
\<close>

theorem Run_never_reports_spill_failure:
  "(case Run s of
      Exited code s' \<Rightarrow> code = - 1
    | Returned r s' \<Rightarrow> r = (sort_retval s \<and> merge_retval s))"
proof -
  let ?s1 = "s\<lparr>m_header_SortOrder :=
                 (if sort_order s = SORT_NAME then ''queryname'' else ''coordinate'')\<rparr>"
  obtain ok s2 where gen: "GenerateSortedRuns ?s1 = (ok, s2)"
    by fastforce
  with GenerateSortedRuns_retval [of ?s1]
  have ok: "ok" and keep: "sort_retval s2 = sort_retval s" "merge_retval s2 = merge_retval s"
    by simp_all
  from ok gen have rs: "RunSort ?s1 = MergeSortedRuns s2"
    by (simp add: RunSort_def)
  show ?thesis
    using MergeSortedRuns_retval [of s2] keep
    by (cases "MergeSortedRuns s2") (simp_all add: Run_def Let_def rs)
qed

text \<open>
  With no writable temp file the merge finds no file to open and the process exits, with
  and without threads; where an unwritable name holds an older file, the merge reads
  that file and \<^verbatim>\<open>Run\<close> returns true.
\<close>

lemma Run_spill_failure_examples:
  "observe (Run (sorter_on SORT_POSITION True 2
                   [named_at ''c'' 20, named_at ''a'' 10, named_at ''b'' 5] (\<lambda>f. False)))
     = (Inl (- 1), [])
   \<and> observe (Run (sorter_on SORT_POSITION False 2
                   [named_at ''c'' 20, named_at ''a'' 10, named_at ''b'' 5] (\<lambda>f. False)))
     = (Inl (- 1), [])
   \<and> observe (Run ((sorter_on SORT_POSITION True 2
                      [named_at ''c'' 20, named_at ''a'' 10, named_at ''b'' 5]
                      (\<lambda>f. f \<noteq> ''/tmp/oge_sort_0''))
                    \<lparr>temp_files := [''/tmp/oge_sort_0'' \<mapsto> [named_at ''old'' 7]]\<rparr>))
     = (Inr True, [''b'', ''old''])"
  by code_simp

section \<open>Properties of the FASTQ writer\<close>


lemma key_mem: "(k, v) \<in> set m \<Longrightarrow> k \<in> set (map fst m)"
  by (induction m) auto












text \<open>The three files of the example, as text.\<close>

lemma FastqWriter_example_files:
  "files_after ''out'' example_reads
     = (''@r1/1\<newline>ACGT\<newline>+r1/1\<newline>IIJJ\<newline>'',
        ''@r1/2\<newline>TCAA\<newline>+r1/2\<newline>DCBA\<newline>'',
        ''@r0\<newline>CC\<newline>+r0\<newline>EE\<newline>@r2\<newline>AAAA\<newline>+r2\<newline>FFFF\<newline>'')"
  by code_simp

text \<open>
  Behind \<^verbatim>\<open>Close\<close> the files are closed: a second \<^verbatim>\<open>Close\<close> writes nothing more to the
  orphan file, and the save of a mate of a read that is still buffered fails to write
  and ends the process.
\<close>

lemma FastqWriter_after_Close:
  "content (streams (snd (FastqWriter_Close closed_writer)) OrphanFile)
     = content (streams closed_writer OrphanFile)
   \<and> (case SaveAlignment closed_writer (fastq_read ''r0'' ''GG'' ''HH'' 0x90) of
        FastqExited code w \<Rightarrow>
          code = - 1 \<and> content (streams w FwdFile) = content (streams closed_writer FwdFile)
            \<and> content (streams w RevFile) = content (streams closed_writer RevFile)
      | FastqReturned r w \<Rightarrow> False)"
  by code_simp

section \<open>Properties of the prefetch worker\<close>

subsection \<open>The depth of the queue\<close>
















subsection \<open>The order of the queue\<close>

lemma load_core_and_data_with_prefetch:
  "load_core_and_data (with_prefetch r q f) al bl
     = (case load_core_and_data r al bl of (ok, a, r1) \<Rightarrow> (ok, a, with_prefetch r1 q f))"
  by (simp add: load_core_and_data_def with_prefetch_def Let_def split_beta)

lemma LoadNextAlignmentInternal_with_prefetch:
  "LoadNextAlignmentInternal (with_prefetch r q f) al
     = (case LoadNextAlignmentInternal r al of (ok, a, r1) \<Rightarrow> (ok, a, with_prefetch r1 q f))"
proof -
  have rb: "read_block_length (with_prefetch r q f) got = read_block_length r got" for got
    by (simp add: read_block_length_def with_prefetch_def)
  have st: "m_stream (with_prefetch r q f) = m_stream r"
    by (simp add: with_prefetch_def)
  have up: "(with_prefetch r q f)\<lparr>m_stream := x\<rparr> = with_prefetch (r\<lparr>m_stream := x\<rparr>) q f" for x
    by (simp add: with_prefetch_def)
  show ?thesis
    by (simp add: LoadNextAlignmentInternal_def rb st up load_core_and_data_with_prefetch
                  Let_def split_beta)
qed

lemma direct_loads_Suc:
  "direct_loads (Suc k) r
     = direct_loads k r
       @ [case LoadNextAlignmentInternal (reader_after k r) BamAlignment_new of
            (ok, a, r1) \<Rightarrow> if ok then Some a else None]"
  by (induction k arbitrary: r) (simp_all add: split_beta)

lemma reader_after_Suc:
  "reader_after (Suc k) r
     = snd (snd (LoadNextAlignmentInternal (reader_after k r) BamAlignment_new))"
  by (induction k arbitrary: r) simp_all


lemma with_prefetch_fields:
  "prefetch_alignments (with_prefetch r q f) = q"
  "do_prefetch (with_prefetch r q f)"
  "prefetch_tell_fail (with_prefetch r q f) = f"
  "m_stream (with_prefetch r q f) = m_stream r"
  "(with_prefetch r q f)\<lparr>prefetch_alignments := q'\<rparr> = with_prefetch r q' f"
  "(with_prefetch r q f)\<lparr>prefetch_tell_fail := f'\<rparr> = with_prefetch r q f'"
  by (simp_all add: with_prefetch_def)

lemma worker_fetch_order:
  assumes "in_file_order r s" and "worker s = AtLoopHead"
  shows "in_file_order r (worker_fetch s)"
proof -
  from assms obtain k f where inv:
    "reader s = with_prefetch (reader_after k r) (prefetch_alignments (reader s)) f"
    "returned s @ prefetch_alignments (reader s) = direct_loads k r"
    "None \<notin> set (direct_loads k r)"
    by (auto simp: in_file_order_def)
  let ?q = "prefetch_alignments (reader s)"
  let ?R = "reader_after k r"
  let ?f = "f @ [stream_Tell (m_stream (reader s))]"
  obtain ok a R1 where ld: "LoadNextAlignmentInternal ?R BamAlignment_new = (ok, a, R1)"
    by (metis prod_cases3)
  have dp: "do_prefetch (reader s)"
    by (subst inv(1)) (rule with_prefetch_fields)
  have r1: "(reader s)\<lparr>prefetch_tell_fail := prefetch_tell_fail (reader s) @
                 [stream_Tell (m_stream (reader s))]\<rparr> = with_prefetch ?R ?q ?f"
    by (subst (1 2) inv(1)) (simp add: with_prefetch_fields)
  have ld1: "LoadNextAlignmentInternal (with_prefetch ?R ?q ?f) BamAlignment_new
               = (ok, a, with_prefetch R1 ?q ?f)"
    by (simp add: LoadNextAlignmentInternal_with_prefetch ld)
  have after: "reader_after (Suc k) r = R1"
    by (simp only: reader_after_Suc ld snd_conv)
  have loads: "direct_loads (Suc k) r = direct_loads k r @ [if ok then Some a else None]"
    by (simp only: direct_loads_Suc ld prod.case)
  show ?thesis
  proof (cases ok)
    case True
    have s': "worker_fetch s
        = s\<lparr>reader := with_prefetch R1 (?q @ [Some a]) ?f, worker := AfterPush\<rparr>"
      using dp True by (simp add: worker_fetch_def Let_def r1 ld1 with_prefetch_fields)
    show ?thesis
      unfolding in_file_order_def
      by (intro exI [of _ "Suc k"] exI [of _ ?f])
         (use inv True in \<open>simp add: s' with_prefetch_fields after loads butlast_append
                                del: direct_loads.simps reader_after.simps\<close>)
  next
    case False
    have s': "worker_fetch s
        = s\<lparr>reader := with_prefetch R1 (?q @ [None]) ?f, worker := Finished\<rparr>"
      using dp False by (simp add: worker_fetch_def Let_def r1 ld1 with_prefetch_fields)
    show ?thesis
      unfolding in_file_order_def
      by (intro exI [of _ "Suc k"] exI [of _ ?f])
         (use inv False in \<open>simp add: s' with_prefetch_fields after loads butlast_append
                                del: direct_loads.simps reader_after.simps\<close>)
  qed
qed

lemma consumer_turn_order:
  assumes "in_file_order r s"
  shows "in_file_order r (consumer_turn s)"
proof -
  from assms obtain k f where inv:
    "reader s = with_prefetch (reader_after k r) (prefetch_alignments (reader s)) f"
    "returned s @ prefetch_alignments (reader s) = direct_loads k r"
    "worker s = Finished \<or> None \<notin> set (direct_loads k r)"
    "None \<notin> set (butlast (direct_loads k r))"
    by (auto simp: in_file_order_def)
  have dp: "do_prefetch (reader s)"
    by (subst inv(1)) (rule with_prefetch_fields)
  show ?thesis
  proof (cases "prefetch_alignments (reader s)")
    case Nil
    with dp assms show ?thesis
      by (simp add: consumer_turn_def)
  next
    case (Cons al rest)
    have s': "consumer_turn s
        = s\<lparr>reader := (reader s)\<lparr>prefetch_alignments := rest\<rparr>, returned := returned s @ [al]\<rparr>"
      using dp Cons by (simp add: consumer_turn_def)
    have rd: "(reader s)\<lparr>prefetch_alignments := rest\<rparr> = with_prefetch (reader_after k r) rest f"
      by (subst inv(1)) (simp add: with_prefetch_fields)
    show ?thesis
      unfolding in_file_order_def
      by (intro exI [of _ k] exI [of _ f])
         (use inv(2,3,4) Cons in \<open>simp add: s' rd with_prefetch_fields\<close>)
  qed
qed

lemma prefetch_turn_order:
  assumes "in_file_order r s"
  shows "in_file_order r (prefetch_turn s t)"
proof (cases t)
  case ConsumerTurn
  with consumer_turn_order [OF assms] show ?thesis by simp
next
  case (WorkerTurn high)
  show ?thesis
  proof (cases "worker s")
    case AtLoopHead
    with WorkerTurn worker_fetch_order [OF assms AtLoopHead] show ?thesis
      by (simp add: worker_turn_def)
  next
    case AfterPush
    with WorkerTurn assms show ?thesis
      by (auto simp: worker_turn_def worker_throttle_def in_file_order_def)
  next
    case Waiting100
    with WorkerTurn assms show ?thesis
      by (auto simp: worker_turn_def worker_poll_def in_file_order_def)
  next
    case Waiting5000
    with WorkerTurn assms show ?thesis
      by (auto simp: worker_turn_def worker_poll_def in_file_order_def)
  next
    case Finished
    with WorkerTurn assms show ?thesis
      by (simp add: worker_turn_def)
  qed
qed

lemma prefetch_start_order: "in_file_order r (prefetch_start r)"
  unfolding in_file_order_def
  by (intro exI [of _ 0] exI [of _ "[]"]) (simp add: prefetch_start_def with_prefetch_def)

lemma run_schedule_order:
  assumes "in_file_order r s"
  shows "in_file_order r (run_schedule schedule s)"
  using assms unfolding run_schedule_def
  by (induction schedule arbitrary: s) (simp_all add: prefetch_turn_order)

subsection \<open>A worker that runs alone\<close>





lemma run_schedule_append:
  "run_schedule (xs @ ys) s = run_schedule ys (run_schedule xs s)"
  by (simp add: run_schedule_def)









subsection \<open>Calls behind the end of the stream\<close>

lemma empty_stream_load:
  "LoadNextAlignmentInternal (with_prefetch (reader_on []) q f) al
     = (False, al, with_prefetch (reader_on []) q f)"
  by (simp add: LoadNextAlignmentInternal_def stream_Read_def with_prefetch_def reader_on_def)

lemma empty_stream_turn:
  assumes "(worker s = AtLoopHead \<and> returned s = []
            \<and> (\<exists>f. reader s = with_prefetch (reader_on []) [] f))
         \<or> (worker s = Finished \<and> do_prefetch (reader s)
            \<and> length (returned s @ prefetch_alignments (reader s)) = 1)"
  shows "(worker (prefetch_turn s t) = AtLoopHead \<and> returned (prefetch_turn s t) = []
            \<and> (\<exists>f. reader (prefetch_turn s t) = with_prefetch (reader_on []) [] f))
         \<or> (worker (prefetch_turn s t) = Finished \<and> do_prefetch (reader (prefetch_turn s t))
            \<and> length (returned (prefetch_turn s t)
                       @ prefetch_alignments (reader (prefetch_turn s t))) = 1)"
  using assms
proof
  assume a: "worker s = AtLoopHead \<and> returned s = []
            \<and> (\<exists>f. reader s = with_prefetch (reader_on []) [] f)"
  then obtain f where r: "reader s = with_prefetch (reader_on []) [] f"
    by blast
  show ?thesis
  proof (cases t)
    case ConsumerTurn
    with a r show ?thesis
      by (auto simp: consumer_turn_def with_prefetch_fields)
  next
    case (WorkerTurn high)
    have "worker_fetch s
            = s\<lparr>reader := with_prefetch (reader_on []) [None] (f @ [stream_Tell (m_stream (reader_on []))]),
                 worker := Finished\<rparr>"
      by (simp add: worker_fetch_def r with_prefetch_fields empty_stream_load Let_def)
    with a WorkerTurn show ?thesis
      by (simp add: worker_turn_def with_prefetch_fields)
  qed
next
  assume b: "worker s = Finished \<and> do_prefetch (reader s)
            \<and> length (returned s @ prefetch_alignments (reader s)) = 1"
  show ?thesis
  proof (cases t)
    case ConsumerTurn
    with b show ?thesis
      by (cases "prefetch_alignments (reader s)") (simp_all add: consumer_turn_def)
  next
    case (WorkerTurn high)
    with b show ?thesis
      by (simp add: worker_turn_def)
  qed
qed

lemma empty_stream_run:
  assumes "(worker s = AtLoopHead \<and> returned s = []
            \<and> (\<exists>f. reader s = with_prefetch (reader_on []) [] f))
         \<or> (worker s = Finished \<and> do_prefetch (reader s)
            \<and> length (returned s @ prefetch_alignments (reader s)) = 1)"
  shows "length (returned (run_schedule schedule s)) \<le> 1"
  using assms unfolding run_schedule_def
proof (induction schedule arbitrary: s)
  case Nil
  then show ?case by auto
next
  case (Cons t schedule)
  from empty_stream_turn [OF Cons.prems, of t] show ?case
    by (simp only: foldl.simps) (rule Cons.IH)
qed

text \<open>
  Claim C8. The claim asks that the results of any number of calls are the same with and
  without prefetching, the results behind the end of the stream included. What the
  prefetch path returns is always an initial segment of what direct decoding returns. But
  the worker leaves its loop behind the first null, so that a call behind the end of the
  stream polls an empty queue that nothing fills: with prefetching no result is ever
  returned behind a null. On the empty stream two direct calls return null twice, and
  behind a zero block length direct decoding goes on to the next record, while with
  prefetching on the empty stream the first call returns null and under no schedule a
  second result is ever returned.
\<close>

theorem prefetch_blocks_after_end_of_stream:
  "(\<exists>k rest. direct_loads k r = returned (run_schedule schedule (prefetch_start r)) @ rest)
   \<and> None \<notin> set (butlast (returned (run_schedule schedule (prefetch_start r))))
   \<and> direct_loads 2 (reader_on []) = [None, None]
   \<and> map (map_option (\<lambda>a. sint (Position a)))
         (direct_loads 3 (reader_on (core_record 50 @ [0, 0, 0, 0] @ core_record 250)))
       = [Some 50, None, Some 250]
   \<and> returned (run_schedule [WorkerTurn False, ConsumerTurn] (prefetch_start (reader_on [])))
       = [None]
   \<and> length (returned (run_schedule schedule (prefetch_start (reader_on [])))) \<le> 1"
proof (intro conjI)
  let ?s = "run_schedule schedule (prefetch_start r)"
  have "in_file_order r ?s"
    by (rule run_schedule_order) (rule prefetch_start_order)
  then obtain k where k: "returned ?s @ prefetch_alignments (reader ?s) = direct_loads k r"
    and last: "None \<notin> set (butlast (direct_loads k r))"
    by (auto simp: in_file_order_def)
  from k show "\<exists>k rest. direct_loads k r = returned ?s @ rest"
    by metis
  have "None \<notin> set (butlast (returned ?s @ prefetch_alignments (reader ?s)))"
    unfolding k by (rule last)
  then show "None \<notin> set (butlast (returned ?s))"
    by (cases "prefetch_alignments (reader ?s) = []")
       (auto simp: butlast_append dest: in_set_butlastD)
next
  show "direct_loads 2 (reader_on []) = [None, None]"
    by code_simp
next
  show "map (map_option (\<lambda>a. sint (Position a)))
         (direct_loads 3 (reader_on (core_record 50 @ [0, 0, 0, 0] @ core_record 250)))
       = [Some 50, None, Some 250]"
    by code_simp
next
  show "returned (run_schedule [WorkerTurn False, ConsumerTurn] (prefetch_start (reader_on [])))
          = [None]"
    by code_simp
next
  have "prefetch_start (reader_on []) = \<lparr>reader = with_prefetch (reader_on []) [] [],
          worker = AtLoopHead, worker_count = 0, returned = []\<rparr>"
    by (simp add: prefetch_start_def with_prefetch_def)
  then show "length (returned (run_schedule schedule (prefetch_start (reader_on [])))) \<le> 1"
    by (intro empty_stream_run) auto
qed

end
